theory Spec2Isabelle
  imports Main
begin

unbundle bit_operations_syntax

section \<open>Speakers, layouts and the mixing table\<close>

text \<open>
  The channel-manipulation engine of \<^verbatim>\<open>src/cmplayer/videorendereritem.cpp\<close>
  (the part after \<^verbatim>\<open>#include "channelmanipulation.hpp"\<close>).  The headers
  \<^verbatim>\<open>enums.hpp\<close> and \<^verbatim>\<open>channelmanipulation.hpp\<close> and the player's
  \<^verbatim>\<open>chmap.h\<close> are not part of the sources, so what the code takes from them is
  either a parameter of the functions below or introduced by a comment that says so.
\<close>

text \<open>The enum \<^verbatim>\<open>SpeakerId\<close>, in the order of the \<^verbatim>\<open>CHECK\<close> lines of
  \<^verbatim>\<open>speakersInLayout\<close>.\<close>

datatype SpeakerId =
    FrontLeft | FrontRight | FrontCenter | LowFrequency | BackLeft | BackRight
  | FrontLeftCenter | FrontRightCenter | BackCenter | SideLeft | SideRight

text \<open>Modelled from the spec: the integer value of a \<^verbatim>\<open>SpeakerId\<close> enumerator
  (declared in \<^verbatim>\<open>enums.hpp\<close>) is a distinct power-of-two bit, so that a layout is
  a union of such bits.  The bits are taken in the catalogue's order.\<close>

fun SpeakerId_value :: "SpeakerId \<Rightarrow> int" where
  "SpeakerId_value FrontLeft = 1"
| "SpeakerId_value FrontRight = 2"
| "SpeakerId_value FrontCenter = 4"
| "SpeakerId_value LowFrequency = 8"
| "SpeakerId_value BackLeft = 16"
| "SpeakerId_value BackRight = 32"
| "SpeakerId_value FrontLeftCenter = 64"
| "SpeakerId_value FrontRightCenter = 128"
| "SpeakerId_value BackCenter = 256"
| "SpeakerId_value SideLeft = 512"
| "SpeakerId_value SideRight = 1024"

text \<open>A \<^verbatim>\<open>ChannelLayout\<close> is an \<^verbatim>\<open>enum class : int\<close> used as a bitmask.  Its
  enumerators \<^verbatim>\<open>Default\<close> and \<^verbatim>\<open>Mono\<close> and the table
  \<^verbatim>\<open>ChannelLayoutInfo::items()\<close> are declared in \<^verbatim>\<open>enums.hpp\<close>; they are
  parameters (\<open>Default\<close>, \<open>Mono\<close>, \<open>items\<close>) of the derivation below.\<close>

type_synonym ChannelLayout = int

text \<open>Modelled from the spec: the enumerators of \<^verbatim>\<open>mp_speaker_id\<close> (declared in
  \<^verbatim>\<open>chmap.h\<close>) for the eleven positions of the catalogue, numbered in the
  catalogue's order.  The code uses them as indices into \<^verbatim>\<open>ChNames\<close> and
  \<^verbatim>\<open>m_mix\<close>: \<^verbatim>\<open>MP_SPEAKER_ID_FL\<close> is the index of \<^verbatim>\<open>"FL"\<close> and
  \<^verbatim>\<open>MP_SPEAKER_ID_SR\<close> that of \<^verbatim>\<open>"SR"\<close>.\<close>

type_synonym mp_speaker_id = nat

definition MP_SPEAKER_ID_FL :: mp_speaker_id where "MP_SPEAKER_ID_FL = 0"
definition MP_SPEAKER_ID_FR :: mp_speaker_id where "MP_SPEAKER_ID_FR = 1"
definition MP_SPEAKER_ID_FC :: mp_speaker_id where "MP_SPEAKER_ID_FC = 2"
definition MP_SPEAKER_ID_LFE :: mp_speaker_id where "MP_SPEAKER_ID_LFE = 3"
definition MP_SPEAKER_ID_BL :: mp_speaker_id where "MP_SPEAKER_ID_BL = 4"
definition MP_SPEAKER_ID_BR :: mp_speaker_id where "MP_SPEAKER_ID_BR = 5"
definition MP_SPEAKER_ID_FLC :: mp_speaker_id where "MP_SPEAKER_ID_FLC = 6"
definition MP_SPEAKER_ID_FRC :: mp_speaker_id where "MP_SPEAKER_ID_FRC = 7"
definition MP_SPEAKER_ID_BC :: mp_speaker_id where "MP_SPEAKER_ID_BC = 8"
definition MP_SPEAKER_ID_SL :: mp_speaker_id where "MP_SPEAKER_ID_SL = 9"
definition MP_SPEAKER_ID_SR :: mp_speaker_id where "MP_SPEAKER_ID_SR = 10"

text \<open>Modelled from the spec: \<^verbatim>\<open>to_mp_speaker_id\<close> returns
  \<^verbatim>\<open>SpeakerIdInfo::data(speaker)\<close>, a table of \<^verbatim>\<open>enums.hpp\<close>; it gives the
  identifier of the same position of the catalogue.\<close>

fun to_mp_speaker_id :: "SpeakerId \<Rightarrow> mp_speaker_id" where
  "to_mp_speaker_id FrontLeft = MP_SPEAKER_ID_FL"
| "to_mp_speaker_id FrontRight = MP_SPEAKER_ID_FR"
| "to_mp_speaker_id FrontCenter = MP_SPEAKER_ID_FC"
| "to_mp_speaker_id LowFrequency = MP_SPEAKER_ID_LFE"
| "to_mp_speaker_id BackLeft = MP_SPEAKER_ID_BL"
| "to_mp_speaker_id BackRight = MP_SPEAKER_ID_BR"
| "to_mp_speaker_id FrontLeftCenter = MP_SPEAKER_ID_FLC"
| "to_mp_speaker_id FrontRightCenter = MP_SPEAKER_ID_FRC"
| "to_mp_speaker_id BackCenter = MP_SPEAKER_ID_BC"
| "to_mp_speaker_id SideLeft = MP_SPEAKER_ID_SL"
| "to_mp_speaker_id SideRight = MP_SPEAKER_ID_SR"

text \<open>\<^verbatim>\<open>speakersInLayout\<close>: one \<^verbatim>\<open>CHECK(a)\<close> per speaker, appending
  \<open>a\<close> when \<^verbatim>\<open>SpeakerId::a & (int)layout\<close> is not zero.\<close>

definition CHECK :: "ChannelLayout \<Rightarrow> SpeakerId list \<Rightarrow> SpeakerId \<Rightarrow> SpeakerId list" where
  "CHECK layout list a = (if SpeakerId_value a AND layout \<noteq> 0 then list @ [a] else list)"

definition speakersInLayout :: "ChannelLayout \<Rightarrow> SpeakerId list" where
  "speakersInLayout layout =
     foldl (CHECK layout) []
       [FrontLeft, FrontRight, FrontCenter, LowFrequency, BackLeft, BackRight,
        FrontLeftCenter, FrontRightCenter, BackCenter, SideLeft, SideRight]"

subsection \<open>ChannelManipulation\<close>

text \<open>Modelled from the spec: the class \<^verbatim>\<open>ChannelManipulation\<close> is declared in
  \<^verbatim>\<open>channelmanipulation.hpp\<close>.  Its member \<^verbatim>\<open>m_mix\<close> is a vector of source
  arrays indexed by destination speaker (the code reads \<^verbatim>\<open>m_mix.size()\<close> and
  \<^verbatim>\<open>m_mix[i]\<close>).  A new manipulation has \<open>cnt\<close> slots, all empty: one for every
  \<^verbatim>\<open>mp_speaker_id\<close>, the number of which is a parameter.  \<^verbatim>\<open>set\<close> replaces
  the source list of a destination and \<^verbatim>\<open>sources\<close> reads it.  Every index that
  the code below uses is at most \<^verbatim>\<open>MP_SPEAKER_ID_SR\<close>, so with
  \<open>MP_SPEAKER_ID_SR < cnt\<close> no access is out of range; the properties assume it wherever
  a slot of a speaker is read or written.\<close>

type_synonym SourceArray = "mp_speaker_id list"

record ChannelManipulation =
  m_mix :: "SourceArray list"

definition ChannelManipulation_new :: "nat \<Rightarrow> ChannelManipulation" where
  "ChannelManipulation_new cnt = \<lparr>m_mix = replicate cnt []\<rparr>"

definition set_sources ::
  "ChannelManipulation \<Rightarrow> mp_speaker_id \<Rightarrow> SourceArray \<Rightarrow> ChannelManipulation" where
  "set_sources man dest src = man\<lparr>m_mix := (m_mix man)[dest := src]\<rparr>"

definition sources :: "ChannelManipulation \<Rightarrow> mp_speaker_id \<Rightarrow> SourceArray" where
  "sources man dest = m_mix man ! dest"

subsection \<open>The default derivation\<close>

datatype error = AssertFailed | OutOfBounds

text \<open>\<^verbatim>\<open>mix[i] << mps\<close>\<close>

definition push :: "SourceArray list \<Rightarrow> mp_speaker_id \<Rightarrow> mp_speaker_id \<Rightarrow> SourceArray list" where
  "push mix i mps = mix[i := mix ! i @ [mps]]"

text \<open>The lambdas of the loop body.  They capture \<open>mix\<close> by reference; here they take
  it and return it.\<close>

definition testAndSet ::
  "ChannelLayout \<Rightarrow> mp_speaker_id \<Rightarrow> SourceArray list \<Rightarrow> SpeakerId \<Rightarrow> SourceArray list \<times> bool" where
  "testAndSet dstLayout mps mix sid =
     (if dstLayout AND SpeakerId_value sid \<noteq> 0
      then (push mix (to_mp_speaker_id sid) mps, True)
      else (mix, False))"

definition testAndSet2 ::
  "ChannelLayout \<Rightarrow> mp_speaker_id \<Rightarrow> SourceArray list \<Rightarrow> SpeakerId \<Rightarrow> SpeakerId
     \<Rightarrow> SourceArray list \<times> bool" where
  "testAndSet2 dstLayout mps mix left right =
     (if dstLayout AND (SpeakerId_value left OR SpeakerId_value right) \<noteq> 0
      then (push (push mix (to_mp_speaker_id left) mps) (to_mp_speaker_id right) mps, True)
      else (mix, False))"

definition setLeft :: "mp_speaker_id \<Rightarrow> SourceArray list \<Rightarrow> SourceArray list" where
  "setLeft mps mix = push mix MP_SPEAKER_ID_FL mps"

definition setRight :: "mp_speaker_id \<Rightarrow> SourceArray list \<Rightarrow> SourceArray list" where
  "setRight mps mix = push mix MP_SPEAKER_ID_FR mps"

definition setBoth :: "mp_speaker_id \<Rightarrow> SourceArray list \<Rightarrow> SourceArray list" where
  "setBoth mps mix = setRight mps (setLeft mps mix)"

text \<open>The \<^verbatim>\<open>switch (srcSpeaker)\<close>.  \<open>||\<close> and \<open>&&\<close> evaluate their right operand
  only when the left one does not decide; \<^verbatim>\<open>Q_ASSERT(false)\<close> is the error
  \<open>AssertFailed\<close>; the cases \<^verbatim>\<open>BackLeft\<close> and \<^verbatim>\<open>BackRight\<close> fall through
  into the next case when neither test succeeds.\<close>

fun switch_srcSpeaker ::
  "ChannelLayout \<Rightarrow> mp_speaker_id \<Rightarrow> SpeakerId \<Rightarrow> SourceArray list \<Rightarrow> error + SourceArray list" where
  "switch_srcSpeaker dstLayout mps FrontLeft mix = Inl AssertFailed"
| "switch_srcSpeaker dstLayout mps FrontRight mix = Inl AssertFailed"
| "switch_srcSpeaker dstLayout mps LowFrequency mix =
     (let (mix1, b1) = testAndSet dstLayout mps mix FrontCenter in
      if \<not> b1 then Inr (setLeft mps mix1)
      else let (mix2, b2) = testAndSet dstLayout mps mix1 FrontLeftCenter in
           if \<not> b2 then Inr (setLeft mps mix2) else Inr mix2)"
| "switch_srcSpeaker dstLayout mps FrontCenter mix =
     (let (mix1, b1) = testAndSet2 dstLayout mps mix FrontLeftCenter FrontRightCenter in
      if \<not> b1 then Inr (setBoth mps mix1) else Inr mix1)"
| "switch_srcSpeaker dstLayout mps BackLeft mix =
     (let (mix1, b1) = testAndSet dstLayout mps mix BackCenter in
      if b1 then Inr mix1
      else let (mix2, b2) = testAndSet dstLayout mps mix1 SideLeft in
           if b2 then Inr mix2 else Inr (setLeft mps mix2))"
| "switch_srcSpeaker dstLayout mps FrontLeftCenter mix = Inr (setLeft mps mix)"
| "switch_srcSpeaker dstLayout mps BackRight mix =
     (let (mix1, b1) = testAndSet dstLayout mps mix BackCenter in
      if b1 then Inr mix1
      else let (mix2, b2) = testAndSet dstLayout mps mix1 SideRight in
           if b2 then Inr mix2 else Inr (setRight mps mix2))"
| "switch_srcSpeaker dstLayout mps FrontRightCenter mix = Inr (setRight mps mix)"
| "switch_srcSpeaker dstLayout mps SideRight mix =
     (let (mix1, b1) = testAndSet dstLayout mps mix BackRight in
      if \<not> b1 then Inr (setRight mps mix1) else Inr mix1)"
| "switch_srcSpeaker dstLayout mps SideLeft mix =
     (let (mix1, b1) = testAndSet dstLayout mps mix BackLeft in
      if \<not> b1 then Inr (setLeft mps mix1) else Inr mix1)"
| "switch_srcSpeaker dstLayout mps BackCenter mix =
     (let (mix1, b1) = testAndSet2 dstLayout mps mix BackLeft BackRight in
      if \<not> b1
      then (let (mix2, b2) = testAndSet2 dstLayout mps mix1 SideLeft SideRight in
            if \<not> b2 then Inr (setBoth mps mix2) else Inr mix2)
      else Inr mix1)"

text \<open>The body of \<^verbatim>\<open>for (auto srcSpeaker : srcSpeakers)\<close>.\<close>

definition srcSpeaker_body ::
  "ChannelLayout \<Rightarrow> ChannelLayout \<Rightarrow> SourceArray list \<Rightarrow> SpeakerId \<Rightarrow> error + SourceArray list" where
  "srcSpeaker_body Mono dstLayout mix srcSpeaker =
     (let mps = to_mp_speaker_id srcSpeaker in
      if SpeakerId_value srcSpeaker AND dstLayout \<noteq> 0 then Inr (push mix mps mps)
      else if dstLayout = Mono then Inr (push mix MP_SPEAKER_ID_FC mps)
      else switch_srcSpeaker dstLayout mps srcSpeaker mix)"

fun srcSpeakers_loop ::
  "ChannelLayout \<Rightarrow> ChannelLayout \<Rightarrow> SpeakerId list \<Rightarrow> SourceArray list \<Rightarrow> error + SourceArray list" where
  "srcSpeakers_loop Mono dstLayout [] mix = Inr mix"
| "srcSpeakers_loop Mono dstLayout (srcSpeaker # rest) mix =
     (case srcSpeaker_body Mono dstLayout mix srcSpeaker of
        Inl e \<Rightarrow> Inl e
      | Inr mix' \<Rightarrow> srcSpeakers_loop Mono dstLayout rest mix')"

subsection \<open>ChannelLayoutMap\<close>

text \<open>Modelled from the spec: the member \<^verbatim>\<open>m_map\<close> (declared in
  \<^verbatim>\<open>channelmanipulation.hpp\<close>) maps a pair of layouts to a manipulation;
  \<^verbatim>\<open>toString\<close> iterates it as a map from the source layout to a map from the
  destination layout to the manipulation.  A \<^verbatim>\<open>QMap\<close> keeps its entries in
  ascending key order, one per key: an association list with an ordered insert.\<close>

type_synonym ('k, 'v) QMap = "('k \<times> 'v) list"

fun QMap_insert :: "'k::linorder \<Rightarrow> 'v \<Rightarrow> ('k, 'v) QMap \<Rightarrow> ('k, 'v) QMap" where
  "QMap_insert k v [] = [(k, v)]"
| "QMap_insert k v ((a, b) # rest) =
     (if k < a then (k, v) # (a, b) # rest
      else if k = a then (k, v) # rest
      else (a, b) # QMap_insert k v rest)"

definition QMap_value :: "('k, 'v) QMap \<Rightarrow> 'k \<Rightarrow> 'v \<Rightarrow> 'v" where
  "QMap_value m k dflt = (case map_of m k of None \<Rightarrow> dflt | Some v \<Rightarrow> v)"

record ChannelLayoutMap =
  m_map :: "(ChannelLayout, (ChannelLayout, ChannelManipulation) QMap) QMap"

definition ChannelLayoutMap_new :: ChannelLayoutMap where
  "ChannelLayoutMap_new = \<lparr>m_map = []\<rparr>"

text \<open>Modelled from the spec: \<^verbatim>\<open>operator()(src, dst)\<close> (declared in
  \<^verbatim>\<open>channelmanipulation.hpp\<close>) gives mutable access to the entry of the pair and
  creates a default-initialized empty entry if it is absent.  \<open>entry\<close> reads through the
  reference, \<open>set_entry\<close> writes through it.\<close>

definition entry :: "nat \<Rightarrow> ChannelLayoutMap \<Rightarrow> ChannelLayout \<Rightarrow> ChannelLayout \<Rightarrow> ChannelManipulation" where
  "entry cnt lmap src dst = QMap_value (QMap_value (m_map lmap) src []) dst (ChannelManipulation_new cnt)"

definition set_entry ::
  "ChannelLayoutMap \<Rightarrow> ChannelLayout \<Rightarrow> ChannelLayout \<Rightarrow> ChannelManipulation \<Rightarrow> ChannelLayoutMap" where
  "set_entry lmap src dst man =
     lmap\<lparr>m_map := QMap_insert src (QMap_insert dst man (QMap_value (m_map lmap) src [])) (m_map lmap)\<rparr>"

text \<open>Looking a pair up without creating it.\<close>

definition find_entry :: "ChannelLayoutMap \<Rightarrow> ChannelLayout \<Rightarrow> ChannelLayout \<Rightarrow> ChannelManipulation option" where
  "find_entry lmap src dst =
     (case map_of (m_map lmap) src of None \<Rightarrow> None | Some inner \<Rightarrow> map_of inner dst)"

text \<open>\<^verbatim>\<open>ChannelLayoutMap::default_()\<close>: the loop over the destination items for one
  source layout, and the loop over the source items.\<close>

fun dstItems_loop ::
  "nat \<Rightarrow> ChannelLayout \<Rightarrow> ChannelLayout \<Rightarrow> ChannelLayout \<Rightarrow> SpeakerId list \<Rightarrow> ChannelLayout list
     \<Rightarrow> ChannelLayoutMap \<Rightarrow> error + ChannelLayoutMap" where
  "dstItems_loop cnt Default Mono srcLayout srcSpeakers [] lmap = Inr lmap"
| "dstItems_loop cnt Default Mono srcLayout srcSpeakers (dstLayout # rest) lmap =
     (if dstLayout = Default then dstItems_loop cnt Default Mono srcLayout srcSpeakers rest lmap
      else let man = entry cnt lmap srcLayout dstLayout in
           case srcSpeakers_loop Mono dstLayout srcSpeakers (m_mix man) of
             Inl e \<Rightarrow> Inl e
           | Inr mix \<Rightarrow>
               dstItems_loop cnt Default Mono srcLayout srcSpeakers rest
                 (set_entry lmap srcLayout dstLayout (man\<lparr>m_mix := mix\<rparr>)))"

fun srcItems_loop ::
  "nat \<Rightarrow> ChannelLayout \<Rightarrow> ChannelLayout \<Rightarrow> ChannelLayout list \<Rightarrow> ChannelLayout list
     \<Rightarrow> ChannelLayoutMap \<Rightarrow> error + ChannelLayoutMap" where
  "srcItems_loop cnt Default Mono items [] lmap = Inr lmap"
| "srcItems_loop cnt Default Mono items (srcLayout # rest) lmap =
     (if srcLayout = Default then srcItems_loop cnt Default Mono items rest lmap
      else case dstItems_loop cnt Default Mono srcLayout (speakersInLayout srcLayout) items lmap of
             Inl e \<Rightarrow> Inl e
           | Inr lmap' \<Rightarrow> srcItems_loop cnt Default Mono items rest lmap')"

definition ChannelLayoutMap_default ::
  "nat \<Rightarrow> ChannelLayout \<Rightarrow> ChannelLayout \<Rightarrow> ChannelLayout list \<Rightarrow> error + ChannelLayoutMap" where
  "ChannelLayoutMap_default cnt Default Mono items =
     srcItems_loop cnt Default Mono items items ChannelLayoutMap_new"

subsection \<open>Text form of a manipulation\<close>

text \<open>\<^verbatim>\<open>ChNames\<close> and \<^verbatim>\<open>ChNamesSize\<close>.\<close>

definition ChNames :: "(string \<times> string) list" where
  "ChNames =
     [(''FL'', ''Front Left''),
      (''FR'', ''Front Right''),
      (''FC'', ''Front Center''),
      (''LFE'', ''Low Frequency Effects''),
      (''BL'', ''Back Left''),
      (''BR'', ''Back Right''),
      (''FLC'', ''Front Left-of-Center''),
      (''FRC'', ''Front Right-of-Center''),
      (''BC'', ''Back Center''),
      (''SL'', ''Side Left''),
      (''SR'', ''Side Right'')]"

definition ChNamesSize :: nat where
  "ChNamesSize = length ChNames"

text \<open>\<^verbatim>\<open>ChNames[i].abbr\<close>; reading past the end of the array is the error
  \<open>OutOfBounds\<close>.\<close>

definition abbr :: "nat \<Rightarrow> error + string" where
  "abbr i = (if i < ChNamesSize then Inr (fst (ChNames ! i)) else Inl OutOfBounds)"

text \<open>\<^verbatim>\<open>QString::split(sep)\<close> keeps empty parts (the empty string gives one
  empty part); with \<^verbatim>\<open>QString::SkipEmptyParts\<close> they are left out.
  \<^verbatim>\<open>QStringList::join(sep)\<close> puts \<open>sep\<close> between the parts.\<close>

fun split :: "char \<Rightarrow> string \<Rightarrow> string list" where
  "split sep [] = [[]]"
| "split sep (c # cs) =
     (if c = sep then [] # split sep cs
      else case split sep cs of
             [] \<Rightarrow> [[c]]
           | part # parts \<Rightarrow> (c # part) # parts)"

definition split_SkipEmptyParts :: "char \<Rightarrow> string \<Rightarrow> string list" where
  "split_SkipEmptyParts sep text = filter (\<lambda>part. part \<noteq> []) (split sep text)"

fun join :: "char \<Rightarrow> string list \<Rightarrow> string" where
  "join sep [] = []"
| "join sep [part] = part"
| "join sep (part # parts) = part @ sep # join sep parts"

text \<open>\<^verbatim>\<open>ChannelManipulation::toString\<close>: the inner loop over the sources of
  one destination, the loop over \<open>i\<close>, and the final join.\<close>

fun srcs_loop :: "SourceArray \<Rightarrow> string list \<Rightarrow> error + string list" where
  "srcs_loop [] srcs = Inr srcs"
| "srcs_loop (src # rest) srcs =
     (case abbr src of Inl e \<Rightarrow> Inl e | Inr a \<Rightarrow> srcs_loop rest (srcs @ [a]))"

fun toString_loop :: "SourceArray list \<Rightarrow> nat \<Rightarrow> string list \<Rightarrow> error + string list" where
  "toString_loop [] i list = Inr list"
| "toString_loop (mix_i # rest) i list =
     (if MP_SPEAKER_ID_FL \<le> i \<and> i \<le> MP_SPEAKER_ID_SR \<and> mix_i \<noteq> []
      then (case srcs_loop mix_i [] of
              Inl e \<Rightarrow> Inl e
            | Inr srcs \<Rightarrow>
                (case abbr i of
                   Inl e \<Rightarrow> Inl e
                 | Inr a \<Rightarrow> toString_loop rest (Suc i) (list @ [a @ CHR ''!'' # join CHR ''/'' srcs])))
      else toString_loop rest (Suc i) list)"

definition ChannelManipulation_toString :: "ChannelManipulation \<Rightarrow> error + string" where
  "ChannelManipulation_toString man =
     (case toString_loop (m_mix man) 0 [] of
        Inl e \<Rightarrow> Inl e
      | Inr list \<Rightarrow> Inr (join CHR '','' list))"

text \<open>Modelled from the spec: \<^verbatim>\<open>MP_SPEAKER_ID_NONE\<close> (declared in
  \<^verbatim>\<open>chmap.h\<close>) is the sentinel of a lookup that found nothing, different from
  every identifier of the catalogue; it is \<open>None\<close> here.  With it, the lambda
  \<^verbatim>\<open>nameToId\<close> of \<^verbatim>\<open>ChannelManipulation::fromString\<close> and the loop
  that collects the sources of one group.\<close>

fun nameToId_loop :: "(string \<times> string) list \<Rightarrow> nat \<Rightarrow> string \<Rightarrow> mp_speaker_id option" where
  "nameToId_loop [] i name = None"
| "nameToId_loop (ch # rest) i name =
     (if name = fst ch then Some i else nameToId_loop rest (Suc i) name)"

definition nameToId :: "string \<Rightarrow> mp_speaker_id option" where
  "nameToId name = nameToId_loop ChNames 0 name"

fun sources_loop :: "string list \<Rightarrow> SourceArray \<Rightarrow> SourceArray" where
  "sources_loop [] srcArray = srcArray"
| "sources_loop (s # rest) srcArray =
     (case nameToId s of
        None \<Rightarrow> sources_loop rest srcArray
      | Some src \<Rightarrow> sources_loop rest (srcArray @ [src]))"

text \<open>The body of \<^verbatim>\<open>for (auto &one : list)\<close>; every \<^verbatim>\<open>continue\<close> leaves
  \<open>man\<close> as it is.\<close>

definition fromString_one :: "ChannelManipulation \<Rightarrow> string \<Rightarrow> ChannelManipulation" where
  "fromString_one man one =
     (case split_SkipEmptyParts CHR ''!'' one of
        [map0, map1] \<Rightarrow>
          (case nameToId map0 of
             None \<Rightarrow> man
           | Some dest \<Rightarrow>
               (let srcArray = sources_loop (split_SkipEmptyParts CHR ''/'' map1) []
                in if srcArray \<noteq> [] then set_sources man dest srcArray else man))
      | _ \<Rightarrow> man)"

definition ChannelManipulation_fromString :: "nat \<Rightarrow> string \<Rightarrow> ChannelManipulation" where
  "ChannelManipulation_fromString cnt text =
     foldl fromString_one (ChannelManipulation_new cnt) (split CHR '','' text)"

subsection \<open>Text form of the whole map\<close>

text \<open>\<^verbatim>\<open>ChannelLayoutInfo::name\<close> and \<^verbatim>\<open>ChannelLayoutInfo::from\<close> are
  declared in \<^verbatim>\<open>enums.hpp\<close>; they are the parameters \<open>layoutName\<close> and
  \<open>layoutFrom\<close>.\<close>

fun dit_loop ::
  "string \<Rightarrow> (ChannelLayout \<Rightarrow> string) \<Rightarrow> (ChannelLayout, ChannelManipulation) QMap
     \<Rightarrow> string list \<Rightarrow> error + string list" where
  "dit_loop srcName layoutName [] list = Inr list"
| "dit_loop srcName layoutName ((dst, man) # rest) list =
     (case ChannelManipulation_toString man of
        Inl e \<Rightarrow> Inl e
      | Inr text \<Rightarrow>
          dit_loop srcName layoutName rest
            (list @ [srcName @ '':'' @ layoutName dst @ '':'' @ text]))"

fun sit_loop ::
  "(ChannelLayout \<Rightarrow> string) \<Rightarrow> (ChannelLayout, (ChannelLayout, ChannelManipulation) QMap) QMap
     \<Rightarrow> string list \<Rightarrow> error + string list" where
  "sit_loop layoutName [] list = Inr list"
| "sit_loop layoutName ((src, inner) # rest) list =
     (case dit_loop (layoutName src) layoutName inner list of
        Inl e \<Rightarrow> Inl e
      | Inr list' \<Rightarrow> sit_loop layoutName rest list')"

definition ChannelLayoutMap_toString ::
  "(ChannelLayout \<Rightarrow> string) \<Rightarrow> ChannelLayoutMap \<Rightarrow> error + string" where
  "ChannelLayoutMap_toString layoutName lmap =
     (case sit_loop layoutName (m_map lmap) [] of
        Inl e \<Rightarrow> Inl e
      | Inr list \<Rightarrow> Inr (join CHR ''#'' list))"

definition fromString_record ::
  "nat \<Rightarrow> (string \<Rightarrow> ChannelLayout) \<Rightarrow> ChannelLayoutMap \<Rightarrow> string \<Rightarrow> ChannelLayoutMap" where
  "fromString_record cnt layoutFrom lmap one =
     (case split_SkipEmptyParts CHR '':'' one of
        [parts0, parts1, parts2] \<Rightarrow>
          set_entry lmap (layoutFrom parts0) (layoutFrom parts1)
            (ChannelManipulation_fromString cnt parts2)
      | _ \<Rightarrow> lmap)"

definition ChannelLayoutMap_fromString ::
  "nat \<Rightarrow> (string \<Rightarrow> ChannelLayout) \<Rightarrow> string \<Rightarrow> ChannelLayoutMap" where
  "ChannelLayoutMap_fromString cnt layoutFrom text =
     foldl (fromString_record cnt layoutFrom) ChannelLayoutMap_new
       (split_SkipEmptyParts CHR ''#'' text)"

text \<open>The entries of a map as \<^verbatim>\<open>toString\<close> walks them: (source layout,
  destination layout, manipulation).\<close>

definition entries :: "ChannelLayoutMap \<Rightarrow> (ChannelLayout \<times> ChannelLayout \<times> ChannelManipulation) list" where
  "entries lmap =
     concat (map (\<lambda>(src, inner). map (\<lambda>(dst, man). (src, dst, man)) inner) (m_map lmap))"

subsection \<open>Auxiliary notions\<close>

text \<open>The notions below are not functions of the program: they name what the program
  computes, so that the properties can be stated and proved.  Each is tied to the functions
  above by a lemma of the next section.\<close>

text \<open>The test \<^verbatim>\<open>SpeakerId::a & (int)layout\<close>: speaker \<open>a\<close> is present in the
  layout.\<close>

definition present :: "ChannelLayout \<Rightarrow> SpeakerId \<Rightarrow> bool" where
  "present layout a \<longleftrightarrow> SpeakerId_value a AND layout \<noteq> 0"


text \<open>Appending \<open>mps\<close> to the source lists of the destinations \<open>ds\<close>, one after the
  other.\<close>

definition pushes :: "mp_speaker_id \<Rightarrow> SourceArray list \<Rightarrow> mp_speaker_id list \<Rightarrow> SourceArray list" where
  "pushes mps mix ds = foldl (\<lambda>m d. push m d mps) mix ds"


text \<open>The destinations that the \<^verbatim>\<open>switch\<close> gives to a source speaker (\<open>None\<close>
  where it asserts), and those that the whole loop body gives.\<close>

fun fallback_dests :: "ChannelLayout \<Rightarrow> SpeakerId \<Rightarrow> mp_speaker_id list option" where
  "fallback_dests D FrontLeft = None"
| "fallback_dests D FrontRight = None"
| "fallback_dests D LowFrequency =
     Some (if present D FrontCenter
           then (if present D FrontLeftCenter then [MP_SPEAKER_ID_FC, MP_SPEAKER_ID_FLC]
                 else [MP_SPEAKER_ID_FC, MP_SPEAKER_ID_FL])
           else [MP_SPEAKER_ID_FL])"
| "fallback_dests D FrontCenter =
     Some (if present D FrontLeftCenter \<or> present D FrontRightCenter
           then [MP_SPEAKER_ID_FLC, MP_SPEAKER_ID_FRC]
           else [MP_SPEAKER_ID_FL, MP_SPEAKER_ID_FR])"
| "fallback_dests D BackLeft =
     Some (if present D BackCenter then [MP_SPEAKER_ID_BC]
           else if present D SideLeft then [MP_SPEAKER_ID_SL] else [MP_SPEAKER_ID_FL])"
| "fallback_dests D FrontLeftCenter = Some [MP_SPEAKER_ID_FL]"
| "fallback_dests D BackRight =
     Some (if present D BackCenter then [MP_SPEAKER_ID_BC]
           else if present D SideRight then [MP_SPEAKER_ID_SR] else [MP_SPEAKER_ID_FR])"
| "fallback_dests D FrontRightCenter = Some [MP_SPEAKER_ID_FR]"
| "fallback_dests D SideRight =
     Some (if present D BackRight then [MP_SPEAKER_ID_BR] else [MP_SPEAKER_ID_FR])"
| "fallback_dests D SideLeft =
     Some (if present D BackLeft then [MP_SPEAKER_ID_BL] else [MP_SPEAKER_ID_FL])"
| "fallback_dests D BackCenter =
     Some (if present D BackLeft \<or> present D BackRight
           then [MP_SPEAKER_ID_BL, MP_SPEAKER_ID_BR]
           else if present D SideLeft \<or> present D SideRight
           then [MP_SPEAKER_ID_SL, MP_SPEAKER_ID_SR]
           else [MP_SPEAKER_ID_FL, MP_SPEAKER_ID_FR])"

definition dests :: "ChannelLayout \<Rightarrow> ChannelLayout \<Rightarrow> SpeakerId \<Rightarrow> mp_speaker_id list option" where
  "dests Mono D s =
     (if present D s then Some [to_mp_speaker_id s]
      else if D = Mono then Some [MP_SPEAKER_ID_FC]
      else fallback_dests D s)"


text \<open>What one source speaker \<open>s\<close> adds to the source list of destination \<open>d\<close>.\<close>

definition contrib :: "ChannelLayout \<Rightarrow> ChannelLayout \<Rightarrow> mp_speaker_id \<Rightarrow> SpeakerId \<Rightarrow> SourceArray" where
  "contrib Mono D d s =
     (case dests Mono D s of None \<Rightarrow> [] | Some ds \<Rightarrow> replicate (count_list ds d) (to_mp_speaker_id s))"


text \<open>\<^verbatim>\<open>default_()(src, dst).sources(dest)\<close>: the source list of one destination
  in one entry of the default map; \<open>None\<close> when the derivation fails or has no such
  entry.\<close>

definition default_sources ::
  "nat \<Rightarrow> ChannelLayout \<Rightarrow> ChannelLayout \<Rightarrow> ChannelLayout list \<Rightarrow> ChannelLayout \<Rightarrow> ChannelLayout
     \<Rightarrow> mp_speaker_id \<Rightarrow> SourceArray option" where
  "default_sources cnt Default Mono items src dst dest =
     (case ChannelLayoutMap_default cnt Default Mono items of
        Inl e \<Rightarrow> None
      | Inr lmap \<Rightarrow>
          (case find_entry lmap src dst of
             None \<Rightarrow> None
           | Some man \<Rightarrow> Some (sources man dest)))"


text \<open>The abbreviation of a speaker of the catalogue, the text of one group, the slots
  that \<^verbatim>\<open>toString\<close> writes, and the whole text of a manipulation.\<close>

definition abbr_of :: "mp_speaker_id \<Rightarrow> string" where
  "abbr_of i = fst (ChNames ! i)"

definition group_text :: "mp_speaker_id \<Rightarrow> SourceArray \<Rightarrow> string" where
  "group_text dest srcs = abbr_of dest @ CHR ''!'' # join CHR ''/'' (map abbr_of srcs)"

definition emitted :: "nat \<times> SourceArray \<Rightarrow> bool" where
  "emitted p \<longleftrightarrow> fst p \<le> MP_SPEAKER_ID_SR \<and> snd p \<noteq> []"

definition manipulation_text :: "ChannelManipulation \<Rightarrow> string" where
  "manipulation_text man =
     join CHR '','' (map (\<lambda>p. group_text (fst p) (snd p)) (filter emitted (enumerate 0 (m_mix man))))"


text \<open>The groups that \<^verbatim>\<open>fromString\<close> passes over with \<^verbatim>\<open>continue\<close>
  before it looks at the sources: not exactly two fields around \<^verbatim>\<open>!\<close>, or an unknown
  destination.\<close>

definition skipped_group :: "string \<Rightarrow> bool" where
  "skipped_group one \<longleftrightarrow>
     (case split_SkipEmptyParts CHR ''!'' one of
        [map0, map1] \<Rightarrow> nameToId map0 = None
      | _ \<Rightarrow> True)"


text \<open>The text of one record of the whole map; a manipulation with \<open>cnt\<close> slots whose
  non-empty source lists are at destinations of the range FrontLeft..SideRight and hold
  only identifiers of that range; a layout name that is not empty and has neither
  \<^verbatim>\<open>:\<close> nor \<^verbatim>\<open>#\<close>; and what reading one record back does to the map.\<close>

definition record_text ::
  "(ChannelLayout \<Rightarrow> string) \<Rightarrow> ChannelLayout \<times> ChannelLayout \<times> ChannelManipulation \<Rightarrow> string" where
  "record_text layoutName e =
     layoutName (fst e) @ '':'' @ layoutName (fst (snd e)) @ '':'' @ manipulation_text (snd (snd e))"

definition canonical :: "nat \<Rightarrow> ChannelManipulation \<Rightarrow> bool" where
  "canonical cnt man \<longleftrightarrow>
     length (m_mix man) = cnt \<and>
     (\<forall>d<cnt. MP_SPEAKER_ID_SR < d \<longrightarrow> sources man d = []) \<and>
     (\<forall>d<cnt. \<forall>s\<in>set (sources man d). s \<le> MP_SPEAKER_ID_SR)"

definition name_ok :: "string \<Rightarrow> bool" where
  "name_ok name \<longleftrightarrow> name \<noteq> [] \<and> CHR '':'' \<notin> set name \<and> CHR ''#'' \<notin> set name"

definition store_entry ::
  "ChannelLayoutMap \<Rightarrow> ChannelLayout \<times> ChannelLayout \<times> ChannelManipulation \<Rightarrow> ChannelLayoutMap" where
  "store_entry lmap e =
     (if manipulation_text (snd (snd e)) = [] then lmap
      else set_entry lmap (fst e) (fst (snd e)) (snd (snd e)))"


section \<open>Properties\<close>

lemmas MP_SPEAKER_ID_defs =
  MP_SPEAKER_ID_FL_def MP_SPEAKER_ID_FR_def MP_SPEAKER_ID_FC_def MP_SPEAKER_ID_LFE_def
  MP_SPEAKER_ID_BL_def MP_SPEAKER_ID_BR_def MP_SPEAKER_ID_FLC_def MP_SPEAKER_ID_FRC_def
  MP_SPEAKER_ID_BC_def MP_SPEAKER_ID_SL_def MP_SPEAKER_ID_SR_def

subsection \<open>Speakers of a layout\<close>

lemma foldl_CHECK: "foldl (CHECK l) acc xs = acc @ filter (present l) xs"
  by (induction xs arbitrary: acc) (simp_all add: CHECK_def present_def)

lemma speakersInLayout_filter:
  "speakersInLayout l = filter (present l)
       [FrontLeft, FrontRight, FrontCenter, LowFrequency, BackLeft, BackRight,
        FrontLeftCenter, FrontRightCenter, BackCenter, SideLeft, SideRight]"
  unfolding speakersInLayout_def foldl_CHECK by simp

lemma set_speakersInLayout: "a \<in> set (speakersInLayout l) \<longleftrightarrow> present l a"
  unfolding speakersInLayout_filter by (cases a) simp_all

lemma distinct_speakersInLayout: "distinct (speakersInLayout l)"
  unfolding speakersInLayout_filter by (rule distinct_filter) simp

lemma inj_to_mp_speaker_id: "to_mp_speaker_id a = to_mp_speaker_id b \<longleftrightarrow> a = b"
  by (cases a; cases b) (simp_all add: MP_SPEAKER_ID_defs)

lemma to_mp_speaker_id_le: "to_mp_speaker_id a \<le> MP_SPEAKER_ID_SR"
  by (cases a) (simp_all add: MP_SPEAKER_ID_defs)

lemma present_test: "dstLayout AND SpeakerId_value a \<noteq> 0 \<longleftrightarrow> present dstLayout a"
  by (simp add: present_def and.commute)

lemma present_test2:
  "dstLayout AND (SpeakerId_value a OR SpeakerId_value b) \<noteq> 0
     \<longleftrightarrow> present dstLayout a \<or> present dstLayout b"
  by (simp add: present_def and.commute [of dstLayout] bit.conj_disj_distrib2 or_eq_0_iff)


subsection \<open>One source speaker\<close>

lemma testAndSet_pushes:
  "testAndSet D mps mix a =
     (if present D a then (pushes mps mix [to_mp_speaker_id a], True) else (mix, False))"
  by (simp add: testAndSet_def present_test pushes_def)

lemma testAndSet2_pushes:
  "testAndSet2 D mps mix a b =
     (if present D a \<or> present D b
      then (pushes mps mix [to_mp_speaker_id a, to_mp_speaker_id b], True) else (mix, False))"
  by (simp add: testAndSet2_def present_test2 pushes_def)

lemma switch_srcSpeaker_pushes:
  "switch_srcSpeaker D mps s mix =
     (case fallback_dests D s of None \<Rightarrow> Inl AssertFailed | Some ds \<Rightarrow> Inr (pushes mps mix ds))"
  by (cases s)
     (simp_all add: testAndSet_pushes testAndSet2_pushes setLeft_def setRight_def setBoth_def
        pushes_def)

lemma srcSpeaker_body_pushes:
  "srcSpeaker_body Mono D mix s =
     (case dests Mono D s of
        None \<Rightarrow> Inl AssertFailed
      | Some ds \<Rightarrow> Inr (pushes (to_mp_speaker_id s) mix ds))"
  by (simp add: srcSpeaker_body_def dests_def switch_srcSpeaker_pushes present_def pushes_def Let_def)

lemma length_pushes: "length (pushes mps mix ds) = length mix"
  unfolding pushes_def by (induction ds arbitrary: mix) (simp_all add: push_def)

lemma nth_pushes:
  "d < length mix \<Longrightarrow> pushes mps mix ds ! d = mix ! d @ replicate (count_list ds d) mps"
  unfolding pushes_def
proof (induction ds arbitrary: mix)
  case Nil
  then show ?case by simp
next
  case (Cons x ds)
  have "d < length (push mix x mps)" using Cons.prems by (simp add: push_def)
  from Cons.IH [OF this] show ?case
    using Cons.prems by (simp add: push_def nth_list_update replicate_app_Cons_same)
qed

lemma dests_nonempty:
  "dests Mono D a = Some ds \<Longrightarrow> ds \<noteq> [] \<and> (\<forall>d\<in>set ds. d \<le> MP_SPEAKER_ID_SR)"
  by (cases a) (auto simp: dests_def MP_SPEAKER_ID_defs split: if_splits)

lemma mem_contrib:
  "x \<in> set (contrib Mono D d a) \<longleftrightarrow>
     x = to_mp_speaker_id a \<and> (\<exists>ds. dests Mono D a = Some ds \<and> d \<in> set ds)"
  by (cases "dests Mono D a") (auto simp: contrib_def count_list_0_iff)


subsection \<open>The loop over the source speakers\<close>

lemma srcSpeakers_loop_closed:
  "srcSpeakers_loop Mono D srcs mix = Inr mix' \<Longrightarrow>
     length mix' = length mix \<and> (\<forall>s\<in>set srcs. dests Mono D s \<noteq> None) \<and>
     (\<forall>d<length mix. mix' ! d = mix ! d @ concat (map (contrib Mono D d) srcs))"
proof (induction srcs arbitrary: mix)
  case Nil
  then show ?case by simp
next
  case (Cons s srcs)
  from Cons.prems obtain ds where ds: "dests Mono D s = Some ds"
    and rest: "srcSpeakers_loop Mono D srcs (pushes (to_mp_speaker_id s) mix ds) = Inr mix'"
    by (auto simp: srcSpeaker_body_pushes split: option.splits)
  from Cons.IH [OF rest] show ?case
    using ds by (simp add: length_pushes nth_pushes contrib_def)
qed

lemma srcSpeakers_loop_total:
  "(\<forall>s\<in>set srcs. dests Mono D s \<noteq> None) \<Longrightarrow> \<exists>mix'. srcSpeakers_loop Mono D srcs mix = Inr mix'"
  by (induction srcs arbitrary: mix) (auto simp: srcSpeaker_body_pushes split: option.splits)

lemma mem_concat_contrib:
  "to_mp_speaker_id a \<in> set (concat (map (contrib Mono D d) (speakersInLayout S))) \<longleftrightarrow>
     present S a \<and> (\<exists>ds. dests Mono D a = Some ds \<and> d \<in> set ds)"
proof
  assume "to_mp_speaker_id a \<in> set (concat (map (contrib Mono D d) (speakersInLayout S)))"
  then obtain b where b: "b \<in> set (speakersInLayout S)"
    and m: "to_mp_speaker_id a \<in> set (contrib Mono D d b)" by auto
  from m have "to_mp_speaker_id a = to_mp_speaker_id b" by (simp add: mem_contrib)
  then have "a = b" by (simp add: inj_to_mp_speaker_id)
  with b m show "present S a \<and> (\<exists>ds. dests Mono D a = Some ds \<and> d \<in> set ds)"
    by (simp add: mem_contrib set_speakersInLayout)
next
  assume "present S a \<and> (\<exists>ds. dests Mono D a = Some ds \<and> d \<in> set ds)"
  then have "a \<in> set (speakersInLayout S)" "to_mp_speaker_id a \<in> set (contrib Mono D d a)"
    by (simp_all add: mem_contrib set_speakersInLayout)
  then show "to_mp_speaker_id a \<in> set (concat (map (contrib Mono D d) (speakersInLayout S)))"
    by auto
qed

lemma concat_single:
  "distinct xs \<Longrightarrow>
   concat (map (\<lambda>s. if to_mp_speaker_id s = d then [to_mp_speaker_id s] else []) xs) =
     (if d \<in> to_mp_speaker_id ` set xs then [d] else [])"
  by (induction xs) (auto simp: inj_to_mp_speaker_id)

lemma concat_mono_collapse:
  "concat (map (\<lambda>s. if d = MP_SPEAKER_ID_FC then [to_mp_speaker_id s] else []) xs) =
     (if d = MP_SPEAKER_ID_FC then map to_mp_speaker_id xs else [])"
  by (induction xs) auto


subsection \<open>The entries of the default map\<close>

lemma map_of_QMap_insert:
  "map_of (QMap_insert k v m) k' = (if k' = k then Some v else map_of m k')"
  by (induction m) auto

lemma find_entry_set_entry:
  "find_entry (set_entry lmap s d man) s' d' =
     (if s' = s \<and> d' = d then Some man else find_entry lmap s' d')"
  by (auto simp: find_entry_def set_entry_def map_of_QMap_insert QMap_value_def
      split: option.splits)

lemma entry_find_entry:
  "entry cnt lmap s d =
     (case find_entry lmap s d of None \<Rightarrow> ChannelManipulation_new cnt | Some man \<Rightarrow> man)"
  by (simp add: entry_def find_entry_def QMap_value_def split: option.splits)

lemma dstItems_loop_entries:
  "dstItems_loop cnt Default Mono S srcs dsts lmap = Inr lmap' \<Longrightarrow> distinct dsts \<Longrightarrow>
     (\<forall>s' d'. s' \<noteq> S \<or> d' \<notin> set dsts \<or> d' = Default
          \<longrightarrow> find_entry lmap' s' d' = find_entry lmap s' d') \<and>
     (\<forall>d'\<in>set dsts. d' \<noteq> Default \<longrightarrow>
        (\<exists>mix. find_entry lmap' S d' = Some \<lparr>m_mix = mix\<rparr> \<and>
               srcSpeakers_loop Mono d' srcs (m_mix (entry cnt lmap S d')) = Inr mix))"
proof (induction dsts arbitrary: lmap)
  case Nil
  then show ?case by simp
next
  case (Cons D dsts)
  show ?case
  proof (cases "D = Default")
    case True
    with Cons.prems have "dstItems_loop cnt Default Mono S srcs dsts lmap = Inr lmap'"
      and "distinct dsts" by simp_all
    from Cons.IH [OF this] show ?thesis using True by auto
  next
    case False
    with Cons.prems obtain mix where
      mix: "srcSpeakers_loop Mono D srcs (m_mix (entry cnt lmap S D)) = Inr mix"
      and rest: "dstItems_loop cnt Default Mono S srcs dsts
                   (set_entry lmap S D ((entry cnt lmap S D)\<lparr>m_mix := mix\<rparr>)) = Inr lmap'"
      by (auto simp: Let_def split: sum.splits)
    from Cons.prems have dist: "distinct dsts" and notin: "D \<notin> set dsts" by simp_all
    note IH = Cons.IH [OF rest dist]
    have other: "\<And>d'. d' \<in> set dsts \<Longrightarrow>
        entry cnt (set_entry lmap S D ((entry cnt lmap S D)\<lparr>m_mix := mix\<rparr>)) S d' = entry cnt lmap S d'"
      using notin by (auto simp: entry_find_entry find_entry_set_entry)
    have here: "find_entry lmap' S D = Some \<lparr>m_mix = mix\<rparr>"
      using IH notin by (simp add: find_entry_set_entry)
    show ?thesis
      using IH mix here other False by (auto simp: find_entry_set_entry)
  qed
qed

lemma srcItems_loop_entries:
  "srcItems_loop cnt Default Mono items srcLs lmap = Inr lmap' \<Longrightarrow> distinct srcLs \<Longrightarrow>
   distinct items \<Longrightarrow>
     (\<forall>s' d'. s' \<notin> set srcLs \<or> s' = Default \<or> d' \<notin> set items \<or> d' = Default
          \<longrightarrow> find_entry lmap' s' d' = find_entry lmap s' d') \<and>
     (\<forall>s'\<in>set srcLs. s' \<noteq> Default \<longrightarrow> (\<forall>d'\<in>set items. d' \<noteq> Default \<longrightarrow>
        (\<exists>mix. find_entry lmap' s' d' = Some \<lparr>m_mix = mix\<rparr> \<and>
               srcSpeakers_loop Mono d' (speakersInLayout s') (m_mix (entry cnt lmap s' d')) = Inr mix)))"
proof (induction srcLs arbitrary: lmap)
  case Nil
  then show ?case by simp
next
  case (Cons S srcLs)
  show ?case
  proof (cases "S = Default")
    case True
    with Cons.prems have "srcItems_loop cnt Default Mono items srcLs lmap = Inr lmap'"
      and "distinct srcLs" by simp_all
    from Cons.IH [OF this Cons.prems(3)] show ?thesis using True by auto
  next
    case False
    with Cons.prems obtain lmap1 where
      one: "dstItems_loop cnt Default Mono S (speakersInLayout S) items lmap = Inr lmap1"
      and rest: "srcItems_loop cnt Default Mono items srcLs lmap1 = Inr lmap'"
      by (auto split: sum.splits)
    from Cons.prems have dist: "distinct srcLs" and notin: "S \<notin> set srcLs" by simp_all
    note D = dstItems_loop_entries [OF one Cons.prems(3)]
    note IH = Cons.IH [OF rest dist Cons.prems(3)]
    have frame: "\<And>s' d'. s' \<noteq> S \<Longrightarrow> find_entry lmap1 s' d' = find_entry lmap s' d'"
      using D by blast
    have ent: "\<And>s' d'. s' \<noteq> S \<Longrightarrow> entry cnt lmap1 s' d' = entry cnt lmap s' d'"
      by (simp add: entry_find_entry frame)
    have keep: "\<And>d'. find_entry lmap' S d' = find_entry lmap1 S d'"
      using IH notin by blast
    have part1: "\<forall>s' d'. s' \<notin> set (S # srcLs) \<or> s' = Default \<or> d' \<notin> set items \<or> d' = Default
          \<longrightarrow> find_entry lmap' s' d' = find_entry lmap s' d'"
    proof (intro allI impI)
      fix s' d'
      assume a: "s' \<notin> set (S # srcLs) \<or> s' = Default \<or> d' \<notin> set items \<or> d' = Default"
      then have "find_entry lmap' s' d' = find_entry lmap1 s' d'" using IH by auto
      moreover have "find_entry lmap1 s' d' = find_entry lmap s' d'"
        using a D False by auto
      ultimately show "find_entry lmap' s' d' = find_entry lmap s' d'" by simp
    qed
    have part2: "\<forall>s'\<in>set (S # srcLs). s' \<noteq> Default \<longrightarrow> (\<forall>d'\<in>set items. d' \<noteq> Default \<longrightarrow>
        (\<exists>mix. find_entry lmap' s' d' = Some \<lparr>m_mix = mix\<rparr> \<and>
               srcSpeakers_loop Mono d' (speakersInLayout s') (m_mix (entry cnt lmap s' d')) = Inr mix))"
    proof (intro ballI impI)
      fix s' d'
      assume s': "s' \<in> set (S # srcLs)" "s' \<noteq> Default" and d': "d' \<in> set items" "d' \<noteq> Default"
      show "\<exists>mix. find_entry lmap' s' d' = Some \<lparr>m_mix = mix\<rparr> \<and>
               srcSpeakers_loop Mono d' (speakersInLayout s') (m_mix (entry cnt lmap s' d')) = Inr mix"
      proof (cases "s' = S")
        case True
        then show ?thesis using D d' keep by auto
      next
        case neq: False
        with s' have "s' \<in> set srcLs" by simp
        with IH s' d' obtain mix where "find_entry lmap' s' d' = Some \<lparr>m_mix = mix\<rparr>"
          "srcSpeakers_loop Mono d' (speakersInLayout s') (m_mix (entry cnt lmap1 s' d')) = Inr mix"
          by blast
        then show ?thesis using ent [OF neq] by auto
      qed
    qed
    from part1 part2 show ?thesis by blast
  qed
qed

lemma default_entry:
  assumes "ChannelLayoutMap_default cnt Default Mono items = Inr lmap"
    and "distinct items" and "S \<in> set items" and "D \<in> set items"
    and "S \<noteq> Default" and "D \<noteq> Default"
  shows "\<exists>mix. find_entry lmap S D = Some \<lparr>m_mix = mix\<rparr> \<and>
           srcSpeakers_loop Mono D (speakersInLayout S) (replicate cnt []) = Inr mix"
proof -
  have "entry cnt ChannelLayoutMap_new S D = \<lparr>m_mix = replicate cnt []\<rparr>"
    by (simp add: entry_def ChannelLayoutMap_new_def QMap_value_def ChannelManipulation_new_def)
  with srcItems_loop_entries [OF assms(1) [unfolded ChannelLayoutMap_default_def] assms(2) assms(2)]
    assms(3-6)
  show ?thesis by fastforce
qed

lemma default_entry_closed:
  assumes "ChannelLayoutMap_default cnt Default Mono items = Inr lmap"
    and "distinct items" and "S \<in> set items" and "D \<in> set items"
    and "S \<noteq> Default" and "D \<noteq> Default"
  shows "\<exists>mix. find_entry lmap S D = Some \<lparr>m_mix = mix\<rparr> \<and> length mix = cnt \<and>
           (\<forall>s\<in>set (speakersInLayout S). dests Mono D s \<noteq> None) \<and>
           (\<forall>d<cnt. mix ! d = concat (map (contrib Mono D d) (speakersInLayout S)))"
proof -
  from default_entry [OF assms] obtain mix where
    "find_entry lmap S D = Some \<lparr>m_mix = mix\<rparr>"
    "srcSpeakers_loop Mono D (speakersInLayout S) (replicate cnt []) = Inr mix" by blast
  with srcSpeakers_loop_closed [OF this(2)] show ?thesis by simp
qed


text \<open>The derivation returns a map for every table in which every destination layout
  other than Mono holds FrontLeft and FrontRight whenever the source layout does: then no
  source speaker reaches the \<^verbatim>\<open>Q_ASSERT(false)\<close> of the cases FrontLeft and
  FrontRight.\<close>

lemma dests_defined:
  "dests Mono D s \<noteq> None \<longleftrightarrow>
     present D s \<or> D = Mono \<or> (s \<noteq> FrontLeft \<and> s \<noteq> FrontRight)"
  by (cases s) (simp_all add: dests_def)

lemma dstItems_loop_total:
  "\<forall>D\<in>set dsts. D \<noteq> Default \<longrightarrow> (\<forall>s\<in>set srcs. dests Mono D s \<noteq> None) \<Longrightarrow>
   \<exists>lmap'. dstItems_loop cnt Default Mono S srcs dsts lmap = Inr lmap'"
proof (induction dsts arbitrary: lmap)
  case Nil
  then show ?case by simp
next
  case (Cons D dsts)
  from Cons.prems have rest:
    "\<forall>D\<in>set dsts. D \<noteq> Default \<longrightarrow> (\<forall>s\<in>set srcs. dests Mono D s \<noteq> None)" by simp
  show ?case
  proof (cases "D = Default")
    case True
    then show ?thesis using Cons.IH [OF rest] by simp
  next
    case False
    with Cons.prems have "\<forall>s\<in>set srcs. dests Mono D s \<noteq> None" by simp
    from srcSpeakers_loop_total [OF this, of "m_mix (entry cnt lmap S D)"]
    obtain mix where "srcSpeakers_loop Mono D srcs (m_mix (entry cnt lmap S D)) = Inr mix" by blast
    then show ?thesis using False Cons.IH [OF rest] by (simp add: Let_def)
  qed
qed

lemma srcItems_loop_total:
  "\<forall>S\<in>set srcLs. S \<noteq> Default \<longrightarrow>
      (\<forall>D\<in>set items. D \<noteq> Default \<longrightarrow> (\<forall>s\<in>set (speakersInLayout S). dests Mono D s \<noteq> None)) \<Longrightarrow>
   \<exists>lmap'. srcItems_loop cnt Default Mono items srcLs lmap = Inr lmap'"
proof (induction srcLs arbitrary: lmap)
  case Nil
  then show ?case by simp
next
  case (Cons S srcLs)
  from Cons.prems have rest: "\<forall>S\<in>set srcLs. S \<noteq> Default \<longrightarrow>
      (\<forall>D\<in>set items. D \<noteq> Default \<longrightarrow> (\<forall>s\<in>set (speakersInLayout S). dests Mono D s \<noteq> None))"
    by simp
  show ?case
  proof (cases "S = Default")
    case True
    then show ?thesis using Cons.IH [OF rest] by simp
  next
    case False
    with Cons.prems have
      "\<forall>D\<in>set items. D \<noteq> Default \<longrightarrow> (\<forall>s\<in>set (speakersInLayout S). dests Mono D s \<noteq> None)"
      by simp
    from dstItems_loop_total [OF this, of cnt S lmap]
    obtain lmap1 where
      "dstItems_loop cnt Default Mono S (speakersInLayout S) items lmap = Inr lmap1" by blast
    then show ?thesis using False Cons.IH [OF rest] by simp
  qed
qed

lemma default_returns:
  assumes "\<forall>S\<in>set items. \<forall>D\<in>set items. S \<noteq> Default \<and> D \<noteq> Default \<and> D \<noteq> Mono \<longrightarrow>
             (present S FrontLeft \<longrightarrow> present D FrontLeft) \<and>
             (present S FrontRight \<longrightarrow> present D FrontRight)"
  shows "\<exists>lmap. ChannelLayoutMap_default cnt Default Mono items = Inr lmap"
  unfolding ChannelLayoutMap_default_def
proof (rule srcItems_loop_total, intro ballI impI)
  fix S D s
  assume "S \<in> set items" "S \<noteq> Default" "D \<in> set items" "D \<noteq> Default"
    and s: "s \<in> set (speakersInLayout S)"
  with assms have "D \<noteq> Mono \<longrightarrow> (present S FrontLeft \<longrightarrow> present D FrontLeft) \<and>
             (present S FrontRight \<longrightarrow> present D FrontRight)" by blast
  with s show "dests Mono D s \<noteq> None"
    unfolding dests_defined set_speakersInLayout by blast
qed

lemma default_sources_Inr:
  "ChannelLayoutMap_default cnt Default Mono items = Inr lmap \<Longrightarrow>
   find_entry lmap src dst = Some man \<Longrightarrow>
   default_sources cnt Default Mono items src dst dest = Some (sources man dest)"
  by (simp add: default_sources_def)


text \<open>Where a source speaker goes: in the entry of a pair, a speaker of the source layout
  is in the source lists of exactly the destinations that the loop body gives it.  For
  LowFrequency and FrontCenter that are not in the destination layout, these are the
  destinations that the code reaches.\<close>

lemma default_destinations:
  assumes "ChannelLayoutMap_default cnt Default Mono items = Inr lmap"
    and "distinct items" and "S \<in> set items" and "D \<in> set items"
    and "S \<noteq> Default" and "D \<noteq> Default" and "present S a"
  shows "\<exists>man. find_entry lmap S D = Some man \<and>
           (\<forall>d<cnt. to_mp_speaker_id a \<in> set (sources man d) \<longleftrightarrow>
              (\<exists>ds. dests Mono D a = Some ds \<and> d \<in> set ds))"
proof -
  from default_entry_closed [OF assms(1-6)] obtain mix where
    f: "find_entry lmap S D = Some \<lparr>m_mix = mix\<rparr>"
    and c: "\<forall>d<cnt. mix ! d = concat (map (contrib Mono D d) (speakersInLayout S))"
    by blast
  have "to_mp_speaker_id a \<in> set (mix ! d) \<longleftrightarrow>
          (\<exists>ds. dests Mono D a = Some ds \<and> d \<in> set ds)" if "d < cnt" for d
  proof -
    from c that have "mix ! d = concat (map (contrib Mono D d) (speakersInLayout S))" by simp
    then show ?thesis
      using assms(7) mem_concat_contrib [of a Mono D d S] by simp
  qed
  with f show ?thesis by (simp add: sources_def)
qed

lemma default_LowFrequency_destinations:
  assumes "ChannelLayoutMap_default cnt Default Mono items = Inr lmap"
    and "distinct items" and "S \<in> set items" and "D \<in> set items"
    and "S \<noteq> Default" and "D \<noteq> Default"
    and "D \<noteq> Mono" and "present S LowFrequency" and "\<not> present D LowFrequency"
  shows "\<exists>man. find_entry lmap S D = Some man \<and>
           (\<forall>d<cnt. to_mp_speaker_id LowFrequency \<in> set (sources man d) \<longleftrightarrow>
              (if present D FrontCenter
               then d = MP_SPEAKER_ID_FC \<or>
                    d = (if present D FrontLeftCenter then MP_SPEAKER_ID_FLC else MP_SPEAKER_ID_FL)
               else d = MP_SPEAKER_ID_FL))"
  using default_destinations [OF assms(1-6,8)] assms(7,9)
  by (auto simp: dests_def)



subsection \<open>Claims about the default derivation\<close>

text \<open>The general statements are about every number of slots \<open>cnt\<close> above
  \<^verbatim>\<open>MP_SPEAKER_ID_SR\<close>, every value of \<open>Default\<close> and \<open>Mono\<close> and every table
  \<open>items\<close> without a repeated layout for which the derivation returns a map.  The closed
  ones take 11 slots, \<open>Default = 0\<close> and \<open>Mono = 4\<close> (FrontCenter alone), and write a
  layout as its mask.\<close>

text \<open>Claim C1 (the code differs from it).  The claim: a LowFrequency source that is not in the
  destination layout goes to exactly one destination, FrontCenter if present, else
  FrontLeftCenter if present, else FrontLeft.  The code evaluates
  \<^verbatim>\<open>!testAndSet(FrontCenter) || !testAndSet(FrontLeftCenter)\<close>: when FrontCenter is
  present the second test runs as well, so LowFrequency is added to FrontCenter and to a
  second destination.  From 5.1 (FL FR FC LFE BL BR, mask 63) to 3.0 (FL FR FC, mask 7)
  LowFrequency is in the source lists of FrontCenter and of FrontLeft.\<close>

theorem default_LowFrequency_two_destinations:
  "present 63 LowFrequency \<and> \<not> present 7 LowFrequency \<and> present 7 FrontCenter \<and>
   \<not> present 7 FrontLeftCenter \<and> (7::int) \<noteq> 4 \<and>
   default_sources 11 0 4 [63, 7] 63 7 MP_SPEAKER_ID_FC =
     Some [MP_SPEAKER_ID_FC, MP_SPEAKER_ID_LFE] \<and>
   default_sources 11 0 4 [63, 7] 63 7 MP_SPEAKER_ID_FL =
     Some [MP_SPEAKER_ID_FL, MP_SPEAKER_ID_LFE, MP_SPEAKER_ID_BL]"
  by (intro conjI; code_simp)






text \<open>Claim C3 as stated fails: from stereo (mask 3) to 3.0 (mask 7) the entry exists, but the
  destination FrontCenter, present in 3.0, has no source.\<close>

theorem default_coverage_counterexample:
  "present 7 FrontCenter \<and>
   default_sources 11 0 4 [3, 7] 3 7 MP_SPEAKER_ID_FC = Some []"
  by (intro conjI; code_simp)


text \<open>Claim C3, amended.  For every ordered pair of non-Default layouts \<open>(S, D)\<close> of the table
  the default map has an entry for \<open>(S, D)\<close>, in which every speaker present in \<open>D\<close> that
  is also present in \<open>S\<close> has at least one contributing source speaker, itself.  (A speaker
  of \<open>D\<close> that is absent from \<open>S\<close> has a source only when a fallback rule routes one to
  it.)\<close>

theorem default_coverage_common:
  assumes "ChannelLayoutMap_default cnt Default Mono items = Inr lmap"
    and "distinct items" and "MP_SPEAKER_ID_SR < cnt"
    and "S \<in> set items" and "D \<in> set items" and "S \<noteq> Default" and "D \<noteq> Default"
  shows "\<exists>man. find_entry lmap S D = Some man \<and>
           (\<forall>a. present D a \<and> present S a \<longrightarrow>
              to_mp_speaker_id a \<in> set (sources man (to_mp_speaker_id a)) \<and>
              sources man (to_mp_speaker_id a) \<noteq> [])"
proof -
  from default_entry_closed [OF assms(1,2,4,5,6,7)] obtain mix where
    f: "find_entry lmap S D = Some \<lparr>m_mix = mix\<rparr>"
    and c: "\<forall>d<cnt. mix ! d = concat (map (contrib Mono D d) (speakersInLayout S))"
    by blast
  have "to_mp_speaker_id a \<in> set (mix ! to_mp_speaker_id a)"
    if "present D a" "present S a" for a
  proof -
    have lt: "to_mp_speaker_id a < cnt"
      using to_mp_speaker_id_le [of a] assms(3) by simp
    have "dests Mono D a = Some [to_mp_speaker_id a]"
      using that(1) by (simp add: dests_def)
    then have "to_mp_speaker_id a \<in>
        set (concat (map (contrib Mono D (to_mp_speaker_id a)) (speakersInLayout S)))"
      unfolding mem_concat_contrib using that(2) by simp
    with c lt show ?thesis by simp
  qed
  then have "\<forall>a. present D a \<and> present S a \<longrightarrow>
      to_mp_speaker_id a \<in> set (mix ! to_mp_speaker_id a) \<and> mix ! to_mp_speaker_id a \<noteq> []"
    by fastforce
  with f show ?thesis by (simp add: sources_def)
qed


theorem default_coverage_common_witness:
  "present 7 FrontLeft \<and> present 3 FrontLeft \<and>
   (\<exists>srcs. default_sources 11 0 4 [3, 7] 3 7 MP_SPEAKER_ID_FL = Some srcs \<and>
      to_mp_speaker_id FrontLeft \<in> set srcs \<and> srcs \<noteq> [])"
proof -
  have "\<exists>lmap. ChannelLayoutMap_default 11 0 4 [3, 7] = Inr lmap"
    by (rule default_returns) (simp add: present_def)
  then obtain lmap where d: "ChannelLayoutMap_default 11 0 4 [3, 7] = Inr lmap" ..
  have c: "MP_SPEAKER_ID_SR < 11" by (simp add: MP_SPEAKER_ID_defs)
  have p: "present 7 FrontLeft" "present 3 FrontLeft" by (simp_all add: present_def)
  from default_coverage_common [OF d _ c, of 3 7] obtain man where
    m: "find_entry lmap 3 7 = Some man"
    and a: "\<forall>a. present 7 a \<and> present 3 a \<longrightarrow>
              to_mp_speaker_id a \<in> set (sources man (to_mp_speaker_id a)) \<and>
              sources man (to_mp_speaker_id a) \<noteq> []"
    by auto
  from a p have "to_mp_speaker_id FrontLeft \<in> set (sources man (to_mp_speaker_id FrontLeft))"
    "sources man (to_mp_speaker_id FrontLeft) \<noteq> []" by blast+
  with default_sources_Inr [OF d m, of MP_SPEAKER_ID_FL] p show ?thesis by simp
qed


text \<open>Claim C6 as stated fails: it does not exclude that BackLeft is present in \<open>D\<close>.  For
  \<open>S = D =\<close> quad (FL FR BL BR, mask 51), \<open>D\<close> has neither BackCenter nor SideLeft and
  is not Mono, and BackLeft passes through to BackLeft; it is not in the source list of
  FrontLeft.\<close>

theorem default_BackLeft_counterexample:
  "present 51 BackLeft \<and> \<not> present 51 BackCenter \<and> \<not> present 51 SideLeft \<and> (51::int) \<noteq> 4 \<and>
   default_sources 11 0 4 [51] 51 51 MP_SPEAKER_ID_FL = Some [MP_SPEAKER_ID_FL] \<and>
   default_sources 11 0 4 [51] 51 51 MP_SPEAKER_ID_BL = Some [MP_SPEAKER_ID_BL]"
  by (intro conjI; code_simp)


text \<open>Claim C6, amended.  For every ordered pair of non-Default layouts \<open>(S, D)\<close> with
  BackLeft present in \<open>S\<close> and not in \<open>D\<close>, and \<open>D\<close> not Mono, BackLeft is in the
  source list of exactly one destination: BackCenter if present in \<open>D\<close>, else SideLeft
  if present, else FrontLeft.  In particular it goes to FrontLeft when \<open>D\<close> has neither
  BackCenter nor SideLeft.\<close>

theorem default_BackLeft:
  assumes "ChannelLayoutMap_default cnt Default Mono items = Inr lmap"
    and "distinct items" and "MP_SPEAKER_ID_SR < cnt"
    and "S \<in> set items" and "D \<in> set items" and "S \<noteq> Default" and "D \<noteq> Default"
    and "D \<noteq> Mono" and "present S BackLeft" and "\<not> present D BackLeft"
  shows "\<exists>man. find_entry lmap S D = Some man \<and>
           (\<forall>d<cnt. to_mp_speaker_id BackLeft \<in> set (sources man d) \<longleftrightarrow>
              d = (if present D BackCenter then MP_SPEAKER_ID_BC
                   else if present D SideLeft then MP_SPEAKER_ID_SL
                   else MP_SPEAKER_ID_FL))"
proof -
  from default_destinations [OF assms(1,2,4,5,6,7,9)] obtain man where
    f: "find_entry lmap S D = Some man"
    and m: "\<forall>d<cnt. to_mp_speaker_id BackLeft \<in> set (sources man d) \<longleftrightarrow>
              (\<exists>ds. dests Mono D BackLeft = Some ds \<and> d \<in> set ds)"
    by blast
  have "dests Mono D BackLeft =
      Some [if present D BackCenter then MP_SPEAKER_ID_BC
            else if present D SideLeft then MP_SPEAKER_ID_SL
            else MP_SPEAKER_ID_FL]"
    using assms(8,10) by (simp add: dests_def)
  with f m show ?thesis by simp
qed


theorem default_BackLeft_witness:
  "present 51 BackLeft \<and> \<not> present 3 BackLeft \<and> \<not> present 3 BackCenter \<and> \<not> present 3 SideLeft \<and>
   (\<exists>srcs. default_sources 11 0 4 [51, 3] 51 3 MP_SPEAKER_ID_FL = Some srcs \<and>
      to_mp_speaker_id BackLeft \<in> set srcs) \<and>
   (\<exists>srcs. default_sources 11 0 4 [51, 3] 51 3 MP_SPEAKER_ID_FR = Some srcs \<and>
      to_mp_speaker_id BackLeft \<notin> set srcs)"
proof -
  have "\<exists>lmap. ChannelLayoutMap_default 11 0 4 [51, 3] = Inr lmap"
    by (rule default_returns) (simp add: present_def)
  then obtain lmap where d: "ChannelLayoutMap_default 11 0 4 [51, 3] = Inr lmap" ..
  have c: "MP_SPEAKER_ID_SR < 11" by (simp add: MP_SPEAKER_ID_defs)
  have p: "present 51 BackLeft" "\<not> present 3 BackLeft" "\<not> present 3 BackCenter"
    "\<not> present 3 SideLeft"
    by (simp_all add: present_def)
  from default_BackLeft [OF d _ c _ _ _ _ _ p(1,2)] p obtain man where
    m: "find_entry lmap 51 3 = Some man"
    and *: "\<forall>d<11. to_mp_speaker_id BackLeft \<in> set (sources man d) \<longleftrightarrow> d = MP_SPEAKER_ID_FL"
    by auto
  have "MP_SPEAKER_ID_FL < 11" "MP_SPEAKER_ID_FR < 11" "MP_SPEAKER_ID_FR \<noteq> MP_SPEAKER_ID_FL"
    by (simp_all add: MP_SPEAKER_ID_defs)
  with * have "to_mp_speaker_id BackLeft \<in> set (sources man MP_SPEAKER_ID_FL)"
    "to_mp_speaker_id BackLeft \<notin> set (sources man MP_SPEAKER_ID_FR)"
    by blast+
  with default_sources_Inr [OF d m] p show ?thesis by simp
qed


text \<open>Claim C7.  For every non-Default source layout \<open>S\<close>, the entry for \<open>(S, Mono)\<close> has
  every speaker of \<open>S\<close> in the source list of FrontCenter (the list is the speakers of
  \<open>S\<close> in catalogue order), and every other destination has no source.  \<open>Mono\<close> is a
  parameter; the layout it names holds no speaker other than FrontCenter.\<close>

theorem default_mono_collapse:
  assumes "ChannelLayoutMap_default cnt Default Mono items = Inr lmap"
    and "distinct items" and "MP_SPEAKER_ID_SR < cnt"
    and "S \<in> set items" and "Mono \<in> set items" and "S \<noteq> Default" and "Mono \<noteq> Default"
    and mono: "\<forall>a. present Mono a \<longrightarrow> a = FrontCenter"
  shows "\<exists>man. find_entry lmap S Mono = Some man \<and>
           sources man MP_SPEAKER_ID_FC = map to_mp_speaker_id (speakersInLayout S) \<and>
           (\<forall>a. present S a \<longrightarrow> to_mp_speaker_id a \<in> set (sources man MP_SPEAKER_ID_FC)) \<and>
           (\<forall>d<cnt. d \<noteq> MP_SPEAKER_ID_FC \<longrightarrow> sources man d = [])"
proof -
  from default_entry_closed [OF assms(1,2,4,5,6,7)] obtain mix where
    f: "find_entry lmap S Mono = Some \<lparr>m_mix = mix\<rparr>" and l: "length mix = cnt"
    and c: "\<forall>d<cnt. mix ! d = concat (map (contrib Mono Mono d) (speakersInLayout S))"
    by blast
  have "\<And>a. dests Mono Mono a = Some [MP_SPEAKER_ID_FC]"
    using mono by (auto simp: dests_def)
  then have "\<And>d. contrib Mono Mono d =
      (\<lambda>s. if d = MP_SPEAKER_ID_FC then [to_mp_speaker_id s] else [])"
    by (auto simp: contrib_def fun_eq_iff)
  with c have *: "\<forall>d<cnt. mix ! d =
      (if d = MP_SPEAKER_ID_FC then map to_mp_speaker_id (speakersInLayout S) else [])"
    by (simp add: concat_mono_collapse)
  have "MP_SPEAKER_ID_FC < cnt" using assms(3) by (simp add: MP_SPEAKER_ID_defs)
  with * have "mix ! MP_SPEAKER_ID_FC = map to_mp_speaker_id (speakersInLayout S)" by simp
  with f * show ?thesis by (auto simp: sources_def set_speakersInLayout)
qed


theorem default_mono_collapse_witness:
  "speakersInLayout 3 = [FrontLeft, FrontRight] \<and>
   default_sources 11 0 4 [4, 3] 3 4 MP_SPEAKER_ID_FC = Some [MP_SPEAKER_ID_FL, MP_SPEAKER_ID_FR] \<and>
   default_sources 11 0 4 [4, 3] 3 4 MP_SPEAKER_ID_FL = Some []"
proof -
  have "\<exists>lmap. ChannelLayoutMap_default 11 0 4 [4, 3] = Inr lmap"
    by (rule default_returns) (simp add: present_def)
  then obtain lmap where d: "ChannelLayoutMap_default 11 0 4 [4, 3] = Inr lmap" ..
  have c: "MP_SPEAKER_ID_SR < 11" by (simp add: MP_SPEAKER_ID_defs)
  have s: "speakersInLayout 3 = [FrontLeft, FrontRight]" by code_simp
  have mono: "\<forall>a. present 4 a \<longrightarrow> a = FrontCenter"
  proof (intro allI impI)
    fix a assume "present 4 a" then show "a = FrontCenter"
      by (cases a) (simp_all add: present_def)
  qed
  from default_mono_collapse [OF d _ c _ _ _ _ mono, of 3] obtain man where
    m: "find_entry lmap 3 4 = Some man"
    and 1: "sources man MP_SPEAKER_ID_FC = map to_mp_speaker_id (speakersInLayout 3)"
    and 2: "\<forall>d<11. d \<noteq> MP_SPEAKER_ID_FC \<longrightarrow> sources man d = []"
    by auto
  from 2 have 3: "sources man MP_SPEAKER_ID_FL = []" by (simp add: MP_SPEAKER_ID_defs)
  from 1 3 s default_sources_Inr [OF d m] show ?thesis by simp
qed


text \<open>Claim C8.  For every non-Default layout \<open>L\<close>, in the entry for \<open>(L, L)\<close> the source
  list of each speaker of \<open>L\<close> is that speaker alone, and the source list of every other
  destination is empty.\<close>

theorem default_identity:
  assumes "ChannelLayoutMap_default cnt Default Mono items = Inr lmap"
    and "distinct items" and "MP_SPEAKER_ID_SR < cnt"
    and "L \<in> set items" and "L \<noteq> Default"
  shows "\<exists>man. find_entry lmap L L = Some man \<and>
           (\<forall>a. present L a \<longrightarrow> sources man (to_mp_speaker_id a) = [to_mp_speaker_id a]) \<and>
           (\<forall>d<cnt. (\<forall>a. present L a \<longrightarrow> d \<noteq> to_mp_speaker_id a) \<longrightarrow> sources man d = [])"
proof -
  from default_entry_closed [OF assms(1,2,4,4,5,5)] obtain mix where
    f: "find_entry lmap L L = Some \<lparr>m_mix = mix\<rparr>" and l: "length mix = cnt"
    and c: "\<forall>d<cnt. mix ! d = concat (map (contrib Mono L d) (speakersInLayout L))"
    by blast
  have "\<And>d. map (contrib Mono L d) (speakersInLayout L) =
      map (\<lambda>s. if to_mp_speaker_id s = d then [to_mp_speaker_id s] else []) (speakersInLayout L)"
    by (rule map_cong) (auto simp: contrib_def dests_def set_speakersInLayout)
  with c have *: "\<forall>d<cnt. mix ! d =
      (if d \<in> to_mp_speaker_id ` set (speakersInLayout L) then [d] else [])"
    by (simp add: concat_single [OF distinct_speakersInLayout])
  have "mix ! to_mp_speaker_id a = [to_mp_speaker_id a]" if "present L a" for a
  proof -
    have "to_mp_speaker_id a < cnt" using to_mp_speaker_id_le [of a] assms(3) by simp
    with * that show ?thesis by (simp add: set_speakersInLayout)
  qed
  moreover have "mix ! d = []" if "d < cnt" "\<forall>a. present L a \<longrightarrow> d \<noteq> to_mp_speaker_id a" for d
    using * that by (auto simp: set_speakersInLayout)
  ultimately show ?thesis using f by (simp add: sources_def)
qed


theorem default_identity_witness:
  "present 51 BackLeft \<and> \<not> present 51 FrontCenter \<and>
   default_sources 11 0 4 [51] 51 51 MP_SPEAKER_ID_BL = Some [MP_SPEAKER_ID_BL] \<and>
   default_sources 11 0 4 [51] 51 51 MP_SPEAKER_ID_FC = Some []"
proof -
  have "\<exists>lmap. ChannelLayoutMap_default 11 0 4 [51] = Inr lmap"
    by (rule default_returns) (simp add: present_def)
  then obtain lmap where d: "ChannelLayoutMap_default 11 0 4 [51] = Inr lmap" ..
  have c: "MP_SPEAKER_ID_SR < 11" by (simp add: MP_SPEAKER_ID_defs)
  have p: "present 51 BackLeft" by (simp add: present_def)
  have n: "\<forall>a. present 51 a \<longrightarrow> MP_SPEAKER_ID_FC \<noteq> to_mp_speaker_id a"
  proof (intro allI impI)
    fix a assume "present 51 a" then show "MP_SPEAKER_ID_FC \<noteq> to_mp_speaker_id a"
      by (cases a) (simp_all add: present_def MP_SPEAKER_ID_defs)
  qed
  from default_identity [OF d _ c, of 51] obtain man where
    m: "find_entry lmap 51 51 = Some man"
    and 1: "\<forall>a. present 51 a \<longrightarrow> sources man (to_mp_speaker_id a) = [to_mp_speaker_id a]"
    and 2: "\<forall>d<11. (\<forall>a. present 51 a \<longrightarrow> d \<noteq> to_mp_speaker_id a) \<longrightarrow> sources man d = []"
    by auto
  from 1 p have "sources man (to_mp_speaker_id BackLeft) = [to_mp_speaker_id BackLeft]" by blast
  moreover have "MP_SPEAKER_ID_FC < 11" by (simp add: MP_SPEAKER_ID_defs)
  with 2 n have "sources man MP_SPEAKER_ID_FC = []" by blast
  moreover have "\<not> present 51 FrontCenter" by (simp add: present_def)
  ultimately show ?thesis using default_sources_Inr [OF d m] p by simp
qed


subsection \<open>Splitting and joining\<close>

lemma split_not_Nil: "split sep s \<noteq> []"
  by (induction s) (auto split: list.splits)

lemma split_no_sep: "sep \<notin> set x \<Longrightarrow> split sep x = [x]"
  by (induction x) auto

lemma split_append_sep:
  "sep \<notin> set x \<Longrightarrow> split sep (x @ sep # rest) = x # split sep rest"
  by (induction x) (auto simp: split_not_Nil split: list.splits)

lemma split_join:
  "xs \<noteq> [] \<Longrightarrow> \<forall>x\<in>set xs. sep \<notin> set x \<Longrightarrow> split sep (join sep xs) = xs"
proof (induction xs rule: join.induct)
  case (1 sep)
  then show ?case by simp
next
  case (2 sep part)
  then show ?case by (simp add: split_no_sep)
next
  case (3 sep part v va)
  then show ?case by (simp add: split_append_sep)
qed

lemma split_Skip_join:
  "\<forall>x\<in>set xs. sep \<notin> set x \<and> x \<noteq> [] \<Longrightarrow> split_SkipEmptyParts sep (join sep xs) = xs"
proof (cases xs)
  case Nil
  then show ?thesis by (simp add: split_SkipEmptyParts_def)
next
  case (Cons a list)
  assume a: "\<forall>x\<in>set xs. sep \<notin> set x \<and> x \<noteq> []"
  then have "split sep (join sep xs) = xs" using Cons by (intro split_join) auto
  then show ?thesis using a by (simp add: split_SkipEmptyParts_def filter_id_conv)
qed

lemma set_join: "set (join sep xs) \<subseteq> insert sep (\<Union> (set ` set xs))"
  by (induction sep xs rule: join.induct) auto

lemma join_eq_Nil: "join sep xs = [] \<longleftrightarrow> xs = [] \<or> xs = [[]]"
  by (induction sep xs rule: join.induct) auto


subsection \<open>Speaker names\<close>

lemma canonical_cases:
  "i \<le> MP_SPEAKER_ID_SR \<Longrightarrow>
     i = MP_SPEAKER_ID_FL \<or> i = MP_SPEAKER_ID_FR \<or> i = MP_SPEAKER_ID_FC \<or> i = MP_SPEAKER_ID_LFE \<or>
     i = MP_SPEAKER_ID_BL \<or> i = MP_SPEAKER_ID_BR \<or> i = MP_SPEAKER_ID_FLC \<or> i = MP_SPEAKER_ID_FRC \<or>
     i = MP_SPEAKER_ID_BC \<or> i = MP_SPEAKER_ID_SL \<or> i = MP_SPEAKER_ID_SR"
  unfolding MP_SPEAKER_ID_defs by arith

lemma ChNamesSize_eq: "ChNamesSize = 11"
  by (simp add: ChNamesSize_def ChNames_def)

lemma abbr_canonical: "i \<le> MP_SPEAKER_ID_SR \<Longrightarrow> abbr i = Inr (abbr_of i)"
  by (simp add: abbr_def abbr_of_def ChNamesSize_eq MP_SPEAKER_ID_SR_def)

lemma abbr_of_simps:
  "abbr_of MP_SPEAKER_ID_FL = ''FL''" "abbr_of MP_SPEAKER_ID_FR = ''FR''"
  "abbr_of MP_SPEAKER_ID_FC = ''FC''" "abbr_of MP_SPEAKER_ID_LFE = ''LFE''"
  "abbr_of MP_SPEAKER_ID_BL = ''BL''" "abbr_of MP_SPEAKER_ID_BR = ''BR''"
  "abbr_of MP_SPEAKER_ID_FLC = ''FLC''" "abbr_of MP_SPEAKER_ID_FRC = ''FRC''"
  "abbr_of MP_SPEAKER_ID_BC = ''BC''" "abbr_of MP_SPEAKER_ID_SL = ''SL''"
  "abbr_of MP_SPEAKER_ID_SR = ''SR''"
  by (simp_all add: abbr_of_def ChNames_def MP_SPEAKER_ID_defs)

lemma nameToId_simps:
  "nameToId ''FL'' = Some MP_SPEAKER_ID_FL" "nameToId ''FR'' = Some MP_SPEAKER_ID_FR"
  "nameToId ''FC'' = Some MP_SPEAKER_ID_FC" "nameToId ''LFE'' = Some MP_SPEAKER_ID_LFE"
  "nameToId ''BL'' = Some MP_SPEAKER_ID_BL" "nameToId ''BR'' = Some MP_SPEAKER_ID_BR"
  "nameToId ''FLC'' = Some MP_SPEAKER_ID_FLC" "nameToId ''FRC'' = Some MP_SPEAKER_ID_FRC"
  "nameToId ''BC'' = Some MP_SPEAKER_ID_BC" "nameToId ''SL'' = Some MP_SPEAKER_ID_SL"
  "nameToId ''SR'' = Some MP_SPEAKER_ID_SR"
  by code_simp+

lemma nameToId_XX: "nameToId ''XX'' = None"
  by code_simp

lemma nameToId_abbr_of: "i \<le> MP_SPEAKER_ID_SR \<Longrightarrow> nameToId (abbr_of i) = Some i"
  by (drule canonical_cases) (elim disjE; simp only: abbr_of_simps nameToId_simps)

lemma abbr_of_chars:
  "i \<le> MP_SPEAKER_ID_SR \<Longrightarrow>
     abbr_of i \<noteq> [] \<and> set (abbr_of i) \<subseteq> set ''FLRCEBS''"
  by (drule canonical_cases) (elim disjE; simp only: abbr_of_simps; simp)

lemma abbr_of_no_sep:
  "i \<le> MP_SPEAKER_ID_SR \<Longrightarrow> c \<in> set ''!/,:#'' \<Longrightarrow> c \<notin> set (abbr_of i)"
  using abbr_of_chars [of i] by auto

lemma abbr_of_not_Nil: "i \<le> MP_SPEAKER_ID_SR \<Longrightarrow> abbr_of i \<noteq> []"
  using abbr_of_chars [of i] by simp

lemma nameToId_loop_range:
  "nameToId_loop chs i name = Some j \<Longrightarrow> i \<le> j \<and> j < i + length chs"
proof (induction chs arbitrary: i)
  case Nil
  then show ?case by simp
next
  case (Cons ch chs)
  show ?case
  proof (cases "name = fst ch")
    case True
    with Cons.prems show ?thesis by simp
  next
    case False
    with Cons.prems have "nameToId_loop chs (Suc i) name = Some j" by simp
    from Cons.IH [OF this] show ?thesis by simp
  qed
qed

lemma nameToId_range: "nameToId name = Some j \<Longrightarrow> j \<le> MP_SPEAKER_ID_SR"
  using nameToId_loop_range [of ChNames 0 name j]
  by (simp add: nameToId_def MP_SPEAKER_ID_SR_def ChNames_def)


subsection \<open>Writing and reading one group\<close>

lemma srcs_loop_closed:
  "\<forall>s\<in>set srcs. s \<le> MP_SPEAKER_ID_SR \<Longrightarrow> srcs_loop srcs acc = Inr (acc @ map abbr_of srcs)"
  by (induction srcs arbitrary: acc) (simp_all add: abbr_canonical)

lemma sources_loop_closed:
  "\<forall>s\<in>set srcs. s \<le> MP_SPEAKER_ID_SR \<Longrightarrow> sources_loop (map abbr_of srcs) acc = acc @ srcs"
  by (induction srcs arbitrary: acc) (simp_all add: nameToId_abbr_of)

lemma sources_part:
  assumes "srcs \<noteq> []" and "\<forall>s\<in>set srcs. s \<le> MP_SPEAKER_ID_SR"
  shows "join CHR ''/'' (map abbr_of srcs) \<noteq> []"
    and "c \<in> set ''!,:#'' \<Longrightarrow> c \<notin> set (join CHR ''/'' (map abbr_of srcs))"
    and "split_SkipEmptyParts CHR ''/'' (join CHR ''/'' (map abbr_of srcs)) = map abbr_of srcs"
proof -
  show "join CHR ''/'' (map abbr_of srcs) \<noteq> []"
    using assms by (cases srcs) (auto simp: join_eq_Nil abbr_of_not_Nil)
  show "c \<notin> set (join CHR ''/'' (map abbr_of srcs))" if "c \<in> set ''!,:#''"
  proof
    assume "c \<in> set (join CHR ''/'' (map abbr_of srcs))"
    with set_join [of "CHR ''/''" "map abbr_of srcs"] that
    obtain s where "s \<in> set srcs" "c \<in> set (abbr_of s)" by auto
    with assms(2) that abbr_of_no_sep [of s c] show False by auto
  qed
  show "split_SkipEmptyParts CHR ''/'' (join CHR ''/'' (map abbr_of srcs)) = map abbr_of srcs"
    using assms(2) by (intro split_Skip_join) (auto simp: abbr_of_not_Nil abbr_of_no_sep)
qed

lemma split_group_text:
  assumes "dest \<le> MP_SPEAKER_ID_SR" and "srcs \<noteq> []" and "\<forall>s\<in>set srcs. s \<le> MP_SPEAKER_ID_SR"
  shows "split_SkipEmptyParts CHR ''!'' (group_text dest srcs) =
           [abbr_of dest, join CHR ''/'' (map abbr_of srcs)]"
proof -
  have "split CHR ''!'' (group_text dest srcs) =
          abbr_of dest # split CHR ''!'' (join CHR ''/'' (map abbr_of srcs))"
    unfolding group_text_def using assms(1) by (intro split_append_sep) (simp add: abbr_of_no_sep)
  also have "split CHR ''!'' (join CHR ''/'' (map abbr_of srcs)) = [join CHR ''/'' (map abbr_of srcs)]"
    using sources_part(2) [OF assms(2,3), of "CHR ''!''"] by (intro split_no_sep) simp
  finally show ?thesis
    using assms(1) sources_part(1) [OF assms(2,3)]
    by (simp add: split_SkipEmptyParts_def abbr_of_not_Nil)
qed

lemma fromString_one_group_text:
  assumes "dest \<le> MP_SPEAKER_ID_SR" and "srcs \<noteq> []" and "\<forall>s\<in>set srcs. s \<le> MP_SPEAKER_ID_SR"
  shows "fromString_one man (group_text dest srcs) = set_sources man dest srcs"
  using assms
  by (simp add: fromString_one_def split_group_text nameToId_abbr_of sources_part(3)
      sources_loop_closed)

lemma group_text_chars:
  assumes "dest \<le> MP_SPEAKER_ID_SR" and "srcs \<noteq> []" and "\<forall>s\<in>set srcs. s \<le> MP_SPEAKER_ID_SR"
  shows "group_text dest srcs \<noteq> []" and "c \<in> set '',:#'' \<Longrightarrow> c \<notin> set (group_text dest srcs)"
proof -
  show "group_text dest srcs \<noteq> []" by (simp add: group_text_def)
  show "c \<notin> set (group_text dest srcs)" if "c \<in> set '',:#''"
    using that assms(1) sources_part(2) [OF assms(2,3), of c] abbr_of_no_sep [of dest c]
    by (auto simp: group_text_def)
qed

lemma fromString_one_Nil: "fromString_one man [] = man"
  by (simp add: fromString_one_def split_SkipEmptyParts_def)

lemma sources_loop_unknown:
  "\<forall>s\<in>set srcs. nameToId s = None \<Longrightarrow> sources_loop srcs acc = acc"
  by (induction srcs arbitrary: acc) simp_all

lemma fromString_one_cases:
  "fromString_one man one = man \<or>
   (\<exists>dest srcs. srcs \<noteq> [] \<and> fromString_one man one = set_sources man dest srcs)"
  by (auto simp: fromString_one_def Let_def split: list.splits option.splits)

lemma fromString_one_unknown_sources:
  assumes "split_SkipEmptyParts CHR ''!'' one = [map0, map1]" and "nameToId map0 = Some dest"
    and "\<forall>s\<in>set (split_SkipEmptyParts CHR ''/'' map1). nameToId s = None"
  shows "fromString_one man one = man"
  using assms by (simp add: fromString_one_def sources_loop_unknown)

lemma skipped_group_skips: "skipped_group one \<Longrightarrow> fromString_one man one = man"
  by (auto simp: skipped_group_def fromString_one_def split: list.splits)

lemma foldl_filter_unchanged:
  "(\<And>a x. \<not> P x \<Longrightarrow> f a x = a) \<Longrightarrow> foldl f a (filter P xs) = foldl f a xs"
  by (induction xs arbitrary: a) simp_all

lemma sources_set_sources:
  "sources (set_sources man dest srcs) d =
     (if d = dest \<and> dest < length (m_mix man) then srcs else sources man d)"
  by (cases "dest < length (m_mix man)")
     (auto simp: sources_def set_sources_def nth_list_update list_update_beyond not_less)

lemma sources_new: "d < cnt \<Longrightarrow> sources (ChannelManipulation_new cnt) d = []"
  by (simp add: sources_def ChannelManipulation_new_def)

lemma length_new: "length (m_mix (ChannelManipulation_new cnt)) = cnt"
  by (simp add: ChannelManipulation_new_def)


subsection \<open>Writing and reading a manipulation\<close>

lemma toString_loop_closed:
  "\<forall>m\<in>set mix. \<forall>s\<in>set m. s \<le> MP_SPEAKER_ID_SR \<Longrightarrow>
   toString_loop mix i acc =
     Inr (acc @ map (\<lambda>p. group_text (fst p) (snd p)) (filter emitted (enumerate i mix)))"
proof (induction mix arbitrary: i acc)
  case Nil
  then show ?case by simp
next
  case (Cons m mix)
  from Cons.prems have rest: "\<forall>m\<in>set mix. \<forall>s\<in>set m. s \<le> MP_SPEAKER_ID_SR"
    and here: "\<forall>s\<in>set m. s \<le> MP_SPEAKER_ID_SR" by simp_all
  note IH = Cons.IH [OF rest]
  show ?case
  proof (cases "i \<le> MP_SPEAKER_ID_SR \<and> m \<noteq> []")
    case True
    have "toString_loop (m # mix) i acc =
            toString_loop mix (Suc i) (acc @ [group_text i m])"
      using True by (simp add: srcs_loop_closed [OF here] abbr_canonical group_text_def
          MP_SPEAKER_ID_FL_def)
    also have "\<dots> = Inr ((acc @ [group_text i m]) @
        map (\<lambda>p. group_text (fst p) (snd p)) (filter emitted (enumerate (Suc i) mix)))"
      by (rule IH)
    finally have eq: "toString_loop (m # mix) i acc = Inr ((acc @ [group_text i m]) @
        map (\<lambda>p. group_text (fst p) (snd p)) (filter emitted (enumerate (Suc i) mix)))" .
    have "emitted (i, m)" using True by (simp add: emitted_def)
    then have "filter emitted (enumerate i (m # mix)) = (i, m) # filter emitted (enumerate (Suc i) mix)"
      by simp
    then show ?thesis unfolding eq by simp
  next
    case False
    then have "toString_loop (m # mix) i acc = toString_loop mix (Suc i) acc"
      by (auto simp: MP_SPEAKER_ID_FL_def)
    also have "\<dots> = Inr (acc @
        map (\<lambda>p. group_text (fst p) (snd p)) (filter emitted (enumerate (Suc i) mix)))"
      by (rule IH)
    finally have eq: "toString_loop (m # mix) i acc = Inr (acc @
        map (\<lambda>p. group_text (fst p) (snd p)) (filter emitted (enumerate (Suc i) mix)))" .
    have "\<not> emitted (i, m)" using False by (simp add: emitted_def)
    then have "filter emitted (enumerate i (m # mix)) = filter emitted (enumerate (Suc i) mix)"
      by simp
    then show ?thesis unfolding eq by simp
  qed
qed

lemma toString_closed:
  "\<forall>m\<in>set (m_mix man). \<forall>s\<in>set m. s \<le> MP_SPEAKER_ID_SR \<Longrightarrow>
   ChannelManipulation_toString man =
     Inr (join CHR '','' (map (\<lambda>p. group_text (fst p) (snd p)) (filter emitted (enumerate 0 (m_mix man)))))"
  by (simp add: ChannelManipulation_toString_def toString_loop_closed)

lemma foldl_fromString_one_groups:
  "\<forall>p\<in>set ps. fst p \<le> MP_SPEAKER_ID_SR \<and> snd p \<noteq> [] \<and> (\<forall>s\<in>set (snd p). s \<le> MP_SPEAKER_ID_SR) \<Longrightarrow>
   foldl fromString_one man (map (\<lambda>p. group_text (fst p) (snd p)) ps) =
     foldl (\<lambda>man p. set_sources man (fst p) (snd p)) man ps"
  by (induction ps arbitrary: man) (simp_all add: fromString_one_group_text)

lemma foldl_fromString_one_split_join:
  assumes "\<forall>g\<in>set gs. CHR '','' \<notin> set g"
  shows "foldl fromString_one man (split CHR '','' (join CHR '','' gs)) = foldl fromString_one man gs"
proof (cases gs)
  case Nil
  then show ?thesis by (simp add: fromString_one_Nil)
next
  case (Cons a list)
  with assms have "split CHR '','' (join CHR '','' gs) = gs" by (intro split_join) auto
  then show ?thesis by simp
qed

lemma m_mix_foldl_set_sources:
  "distinct (map fst ps) \<Longrightarrow>
   length (m_mix (foldl (\<lambda>man p. set_sources man (fst p) (snd p)) man ps)) = length (m_mix man) \<and>
   (\<forall>k<length (m_mix man).
      m_mix (foldl (\<lambda>man p. set_sources man (fst p) (snd p)) man ps) ! k =
        (case map_of ps k of Some m \<Rightarrow> m | None \<Rightarrow> m_mix man ! k))"
proof (induction ps arbitrary: man)
  case Nil
  then show ?case by simp
next
  case (Cons p ps)
  from Cons.prems have d: "distinct (map fst ps)" and n: "fst p \<notin> fst ` set ps" by simp_all
  from n have none: "map_of ps (fst p) = None" by (simp add: map_of_eq_None_iff)
  obtain j m where p: "p = (j, m)" by (cases p)
  note IH = Cons.IH [OF d, of "set_sources man j m"]
  have len: "length (m_mix (set_sources man j m)) = length (m_mix man)"
    by (simp add: set_sources_def)
  show ?case
  proof (intro conjI allI impI)
    show "length (m_mix (foldl (\<lambda>man p. set_sources man (fst p) (snd p)) man (p # ps))) =
            length (m_mix man)"
      using IH len by (simp add: p)
  next
    fix k assume k: "k < length (m_mix man)"
    with IH len have "m_mix (foldl (\<lambda>man p. set_sources man (fst p) (snd p)) (set_sources man j m) ps) ! k =
        (case map_of ps k of Some m' \<Rightarrow> m' | None \<Rightarrow> m_mix (set_sources man j m) ! k)"
      by simp
    moreover have "m_mix (set_sources man j m) ! k = (if k = j then m else m_mix man ! k)"
      using k by (simp add: set_sources_def nth_list_update)
    ultimately show "m_mix (foldl (\<lambda>man p. set_sources man (fst p) (snd p)) man (p # ps)) ! k =
        (case map_of (p # ps) k of Some m \<Rightarrow> m | None \<Rightarrow> m_mix man ! k)"
      using none by (cases "k = j") (simp_all add: p split: option.splits)
  qed
qed

lemma map_of_filter_enumerate:
  "k < length xs \<Longrightarrow>
   map_of (filter P (enumerate 0 xs)) k = (if P (k, xs ! k) then Some (xs ! k) else None)"
proof -
  assume k: "k < length xs"
  have d: "distinct (map fst (filter P (enumerate 0 xs)))"
    by (rule distinct_map_filter) simp
  show ?thesis
  proof (cases "P (k, xs ! k)")
    case True
    with k have "(k, xs ! k) \<in> set (filter P (enumerate 0 xs))"
      by (simp add: in_set_enumerate_eq)
    with d True show ?thesis by simp
  next
    case False
    have "k \<notin> fst ` set (filter P (enumerate 0 xs))"
    proof
      assume "k \<in> fst ` set (filter P (enumerate 0 xs))"
      then obtain v where "(k, v) \<in> set (enumerate 0 xs)" "P (k, v)" by auto
      with False show False by (simp add: in_set_enumerate_eq)
    qed
    then have "map_of (filter P (enumerate 0 xs)) k = None" by (simp add: map_of_eq_None_iff)
    with False show ?thesis by simp
  qed
qed

lemma filter_emitted_replicate: "filter emitted (enumerate i (replicate n [])) = []"
  by (induction n arbitrary: i) (simp_all add: emitted_def)

lemma filter_emitted_update:
  "j < n \<Longrightarrow> filter emitted (enumerate i ((replicate n [])[j := v])) =
     (if i + j \<le> MP_SPEAKER_ID_SR \<and> v \<noteq> [] then [(i + j, v)] else [])"
proof (induction n arbitrary: i j)
  case 0
  then show ?case by simp
next
  case (Suc n)
  show ?case
  proof (cases j)
    case 0
    then show ?thesis by (simp add: filter_emitted_replicate) (simp add: emitted_def)
  next
    case (Suc j')
    with Suc.prems have "j' < n" by simp
    from Suc.IH [OF this, of "Suc i"] show ?thesis
      using Suc by (simp add: emitted_def)
  qed
qed

lemma fromString_example1:
  "ChannelManipulation_fromString cnt ''FC!FL/FR'' =
     set_sources (ChannelManipulation_new cnt) MP_SPEAKER_ID_FC [MP_SPEAKER_ID_FL, MP_SPEAKER_ID_FR]"
  by (simp add: ChannelManipulation_fromString_def fromString_one_def split_SkipEmptyParts_def
      nameToId_simps)

lemma fromString_example2:
  "ChannelManipulation_fromString cnt ''FL!XX,FC!FL'' =
     set_sources (ChannelManipulation_new cnt) MP_SPEAKER_ID_FC [MP_SPEAKER_ID_FL]"
  by (simp add: ChannelManipulation_fromString_def fromString_one_def split_SkipEmptyParts_def
      nameToId_simps nameToId_XX)

lemma example_mix:
  "m_mix (set_sources (ChannelManipulation_new cnt) d srcs) = (replicate cnt [])[d := srcs]"
  by (simp add: set_sources_def ChannelManipulation_new_def)

lemma example_valid:
  assumes "\<forall>s\<in>set srcs. s \<le> MP_SPEAKER_ID_SR"
  shows "\<forall>m\<in>set ((replicate cnt [])[d := srcs]). \<forall>s\<in>set m. s \<le> MP_SPEAKER_ID_SR"
proof
  fix m assume "m \<in> set ((replicate cnt [])[d := srcs])"
  then obtain k where "k < cnt" "m = (replicate cnt [])[d := srcs] ! k"
    by (auto simp: in_set_conv_nth)
  then have "m = srcs \<or> m = []" by (cases "k = d") auto
  with assms show "\<forall>s\<in>set m. s \<le> MP_SPEAKER_ID_SR" by auto
qed

lemma toString_single:
  assumes "d \<le> MP_SPEAKER_ID_SR" and "MP_SPEAKER_ID_SR < cnt" and "srcs \<noteq> []"
    and "\<forall>s\<in>set srcs. s \<le> MP_SPEAKER_ID_SR"
  shows "ChannelManipulation_toString (set_sources (ChannelManipulation_new cnt) d srcs) =
           Inr (group_text d srcs)"
proof -
  have "d < cnt" using assms(1,2) by simp
  then have "filter emitted (enumerate 0 ((replicate cnt [])[d := srcs])) = [(d, srcs)]"
    using assms(1,3) by (simp add: filter_emitted_update)
  then show ?thesis
    using toString_closed [of "set_sources (ChannelManipulation_new cnt) d srcs"]
      example_valid [OF assms(4), of cnt d]
    by (simp add: example_mix)
qed

lemma example_text:
  "group_text MP_SPEAKER_ID_FC [MP_SPEAKER_ID_FL, MP_SPEAKER_ID_FR] = ''FC!FL/FR''"
  by (simp add: group_text_def abbr_of_simps)

lemma toString_example:
  assumes "MP_SPEAKER_ID_SR < cnt"
  shows "ChannelManipulation_toString (ChannelManipulation_fromString cnt ''FC!FL/FR'') = Inr ''FC!FL/FR''"
proof -
  have "ChannelManipulation_toString
          (set_sources (ChannelManipulation_new cnt) MP_SPEAKER_ID_FC [MP_SPEAKER_ID_FL, MP_SPEAKER_ID_FR]) =
        Inr (group_text MP_SPEAKER_ID_FC [MP_SPEAKER_ID_FL, MP_SPEAKER_ID_FR])"
    using assms by (intro toString_single) (simp_all add: MP_SPEAKER_ID_defs)
  then show ?thesis by (simp only: fromString_example1 example_text)
qed

lemma manipulation_roundtrip:
  assumes "length (m_mix man) = cnt"
    and canon: "\<forall>d<cnt. MP_SPEAKER_ID_SR < d \<longrightarrow> sources man d = []"
    and valid: "\<forall>d<cnt. \<forall>s\<in>set (sources man d). s \<le> MP_SPEAKER_ID_SR"
  shows "ChannelManipulation_toString man = Inr (manipulation_text man) \<and>
         ChannelManipulation_fromString cnt (manipulation_text man) = man"
proof -
  let ?mix = "m_mix man"
  let ?ps = "filter emitted (enumerate 0 ?mix)"
  let ?gs = "map (\<lambda>p. group_text (fst p) (snd p)) ?ps"
  have v: "\<forall>m\<in>set ?mix. \<forall>s\<in>set m. s \<le> MP_SPEAKER_ID_SR"
  proof
    fix m assume "m \<in> set ?mix"
    then obtain d where "d < length ?mix" "?mix ! d = m" by (auto simp: in_set_conv_nth)
    with valid assms(1) show "\<forall>s\<in>set m. s \<le> MP_SPEAKER_ID_SR" by (auto simp: sources_def)
  qed
  have ps: "\<forall>p\<in>set ?ps. fst p \<le> MP_SPEAKER_ID_SR \<and> snd p \<noteq> [] \<and> (\<forall>s\<in>set (snd p). s \<le> MP_SPEAKER_ID_SR)"
    using v by (auto simp: emitted_def in_set_enumerate_eq)
  have ts: "ChannelManipulation_toString man = Inr (join CHR '','' ?gs)"
    by (rule toString_closed [OF v])
  have "\<forall>g\<in>set ?gs. CHR '','' \<notin> set g"
    using ps group_text_chars(2) [of _ _ "CHR '',''"] by auto
  then have "ChannelManipulation_fromString cnt (join CHR '','' ?gs) =
      foldl fromString_one (ChannelManipulation_new cnt) ?gs"
    by (simp add: ChannelManipulation_fromString_def foldl_fromString_one_split_join)
  also have "\<dots> = foldl (\<lambda>man p. set_sources man (fst p) (snd p)) (ChannelManipulation_new cnt) ?ps"
    by (rule foldl_fromString_one_groups [OF ps])
  finally have fs: "ChannelManipulation_fromString cnt (join CHR '','' ?gs) =
      foldl (\<lambda>man p. set_sources man (fst p) (snd p)) (ChannelManipulation_new cnt) ?ps" .
  have d: "distinct (map fst ?ps)" by (rule distinct_map_filter) simp
  note F = m_mix_foldl_set_sources [OF d, of "ChannelManipulation_new cnt"]
  have "m_mix (ChannelManipulation_fromString cnt (join CHR '','' ?gs)) = ?mix"
  proof (rule nth_equalityI)
    show "length (m_mix (ChannelManipulation_fromString cnt (join CHR '','' ?gs))) = length ?mix"
      using F assms(1) by (simp add: fs ChannelManipulation_new_def)
  next
    fix k assume "k < length (m_mix (ChannelManipulation_fromString cnt (join CHR '','' ?gs)))"
    then have k: "k < cnt" using F by (simp add: fs ChannelManipulation_new_def)
    then have "m_mix (ChannelManipulation_fromString cnt (join CHR '','' ?gs)) ! k =
        (case map_of ?ps k of Some m \<Rightarrow> m | None \<Rightarrow> [])"
      using F by (simp add: fs ChannelManipulation_new_def split: option.splits)
    also have "\<dots> = (if emitted (k, ?mix ! k) then ?mix ! k else [])"
      using k assms(1) by (simp add: map_of_filter_enumerate)
    also have "\<dots> = ?mix ! k"
      using canon k by (auto simp: emitted_def sources_def)
    finally show "m_mix (ChannelManipulation_fromString cnt (join CHR '','' ?gs)) ! k = ?mix ! k" .
  qed
  then have "ChannelManipulation_fromString cnt (join CHR '','' ?gs) = man" by simp
  with ts show ?thesis by (simp add: manipulation_text_def)
qed


text \<open>Claim C4.  A manipulation with \<open>cnt\<close> slots whose non-empty source lists are at
  destinations of the range FrontLeft..SideRight and hold only identifiers of that range is
  written to a text from which \<^verbatim>\<open>fromString\<close> gives the same manipulation back;
  and \<^verbatim>\<open>fromString("FC!FL/FR").toString()\<close> is \<^verbatim>\<open>"FC!FL/FR"\<close>.\<close>

theorem toString_fromString_roundtrip:
  assumes "MP_SPEAKER_ID_SR < cnt" and "length (m_mix man) = cnt"
    and "\<forall>d<cnt. MP_SPEAKER_ID_SR < d \<longrightarrow> sources man d = []"
    and "\<forall>d<cnt. \<forall>s\<in>set (sources man d). s \<le> MP_SPEAKER_ID_SR"
  shows "(\<exists>text. ChannelManipulation_toString man = Inr text \<and>
            ChannelManipulation_fromString cnt text = man) \<and>
         ChannelManipulation_toString (ChannelManipulation_fromString cnt ''FC!FL/FR'') =
           Inr ''FC!FL/FR''"
  using manipulation_roundtrip [OF assms(2,3,4)] toString_example [OF assms(1)] by blast


theorem toString_fromString_roundtrip_witness:
  "MP_SPEAKER_ID_SR < 11 \<and>
   ChannelManipulation_toString
     \<lparr>m_mix = [[], [MP_SPEAKER_ID_FL, MP_SPEAKER_ID_FL], [MP_SPEAKER_ID_SR, MP_SPEAKER_ID_LFE],
               [], [], [], [], [], [], [], [MP_SPEAKER_ID_BC]]\<rparr> = Inr ''FR!FL/FL,FC!SR/LFE,SR!BC'' \<and>
   ChannelManipulation_fromString 11 ''FR!FL/FL,FC!SR/LFE,SR!BC'' =
     \<lparr>m_mix = [[], [MP_SPEAKER_ID_FL, MP_SPEAKER_ID_FL], [MP_SPEAKER_ID_SR, MP_SPEAKER_ID_LFE],
               [], [], [], [], [], [], [], [MP_SPEAKER_ID_BC]]\<rparr> \<and>
   ChannelManipulation_toString (ChannelManipulation_fromString 11 ''FC!FL/FR'') = Inr ''FC!FL/FR''"
  (is "_ \<and> ChannelManipulation_toString ?man = Inr ?text \<and> _")
proof -
  have c: "MP_SPEAKER_ID_SR < 11" by (simp add: MP_SPEAKER_ID_defs)
  have l: "length (m_mix ?man) = 11" by simp
  have t: "ChannelManipulation_toString ?man = Inr ?text" by code_simp
  have canon: "\<forall>d<11. MP_SPEAKER_ID_SR < d \<longrightarrow> sources ?man d = []"
    by (simp add: MP_SPEAKER_ID_defs)
  have valid: "\<forall>d<11. \<forall>s\<in>set (sources ?man d). s \<le> MP_SPEAKER_ID_SR"
  proof (intro allI impI)
    fix d :: nat assume "d < 11"
    then have "d = 0 \<or> d = 1 \<or> d = 2 \<or> d = 3 \<or> d = 4 \<or> d = 5 \<or> d = 6 \<or> d = 7 \<or>
        d = 8 \<or> d = 9 \<or> d = 10" by arith
    then show "\<forall>s\<in>set (sources ?man d). s \<le> MP_SPEAKER_ID_SR"
      by (elim disjE) (simp_all add: sources_def MP_SPEAKER_ID_defs)
  qed
  from toString_fromString_roundtrip [OF c l canon valid] t
  show ?thesis using c by auto
qed


text \<open>Claim C9.  \<^verbatim>\<open>fromString("FL!XX,FC!FL")\<close> has FrontLeft as the only source of
  FrontCenter and no source for any other destination, FrontLeft included.  In general a
  group that has not exactly two fields around \<^verbatim>\<open>!\<close> or whose destination is unknown
  leaves the manipulation as it is, and the result of \<^verbatim>\<open>fromString\<close> is that of
  parsing the other groups alone.\<close>

theorem fromString_lenient:
  assumes "MP_SPEAKER_ID_SR < cnt"
  shows "sources (ChannelManipulation_fromString cnt ''FL!XX,FC!FL'') MP_SPEAKER_ID_FC = [MP_SPEAKER_ID_FL] \<and>
         (\<forall>d<cnt. d \<noteq> MP_SPEAKER_ID_FC \<longrightarrow>
            sources (ChannelManipulation_fromString cnt ''FL!XX,FC!FL'') d = []) \<and>
         (\<forall>man one. skipped_group one \<longrightarrow> fromString_one man one = man) \<and>
         (\<forall>text. ChannelManipulation_fromString cnt text =
            foldl fromString_one (ChannelManipulation_new cnt)
              (filter (\<lambda>one. \<not> skipped_group one) (split CHR '','' text)))"
proof -
  have fc: "MP_SPEAKER_ID_FC < cnt" using assms by (simp add: MP_SPEAKER_ID_defs)
  have "\<And>text. foldl fromString_one (ChannelManipulation_new cnt)
              (filter (\<lambda>one. \<not> skipped_group one) (split CHR '','' text)) =
            foldl fromString_one (ChannelManipulation_new cnt) (split CHR '','' text)"
    by (rule foldl_filter_unchanged) (simp add: skipped_group_skips)
  then have last: "\<forall>text. ChannelManipulation_fromString cnt text =
            foldl fromString_one (ChannelManipulation_new cnt)
              (filter (\<lambda>one. \<not> skipped_group one) (split CHR '','' text))"
    by (simp add: ChannelManipulation_fromString_def)
  have ex: "sources (ChannelManipulation_fromString cnt ''FL!XX,FC!FL'') MP_SPEAKER_ID_FC = [MP_SPEAKER_ID_FL] \<and>
         (\<forall>d<cnt. d \<noteq> MP_SPEAKER_ID_FC \<longrightarrow>
            sources (ChannelManipulation_fromString cnt ''FL!XX,FC!FL'') d = [])"
    unfolding fromString_example2 using fc
    by (simp add: sources_set_sources sources_new length_new)
  from ex last show ?thesis by (simp add: skipped_group_skips)
qed


theorem fromString_lenient_witness:
  "MP_SPEAKER_ID_SR < 11 \<and>
   ChannelManipulation_fromString 11 ''FL!XX,FC!FL'' =
     \<lparr>m_mix = [[], [], [MP_SPEAKER_ID_FL], [], [], [], [], [], [], [], []]\<rparr> \<and>
   sources (ChannelManipulation_fromString 11 ''FL!XX,FC!FL'') MP_SPEAKER_ID_FC = [MP_SPEAKER_ID_FL] \<and>
   sources (ChannelManipulation_fromString 11 ''FL!XX,FC!FL'') MP_SPEAKER_ID_FL = [] \<and>
   skipped_group ''XX!FL'' \<and>
   skipped_group ''FL'' \<and>
   fromString_one \<lparr>m_mix = [[], [], [MP_SPEAKER_ID_FL], [], [], [], [], [], [], [], []]\<rparr> ''XX!FL'' =
     \<lparr>m_mix = [[], [], [MP_SPEAKER_ID_FL], [], [], [], [], [], [], [], []]\<rparr> \<and>
   ChannelManipulation_fromString 11 ''XX!FL,FC!FL,FL'' =
     \<lparr>m_mix = [[], [], [MP_SPEAKER_ID_FL], [], [], [], [], [], [], [], []]\<rparr>"
proof -
  have c: "MP_SPEAKER_ID_SR < 11" by (simp add: MP_SPEAKER_ID_defs)
  have s1: "skipped_group ''XX!FL''" and s2: "skipped_group ''FL''" by code_simp+
  have e: "ChannelManipulation_fromString 11 ''FL!XX,FC!FL'' =
     \<lparr>m_mix = [[], [], [MP_SPEAKER_ID_FL], [], [], [], [], [], [], [], []]\<rparr>"
    and e2: "ChannelManipulation_fromString 11 ''XX!FL,FC!FL,FL'' =
     \<lparr>m_mix = [[], [], [MP_SPEAKER_ID_FL], [], [], [], [], [], [], [], []]\<rparr>"
    by code_simp+
  have fl: "MP_SPEAKER_ID_FL < 11 \<and> MP_SPEAKER_ID_FL \<noteq> MP_SPEAKER_ID_FC"
    by (simp add: MP_SPEAKER_ID_defs)
  from fromString_lenient [OF c] s1 s2 fl e2 show ?thesis
    unfolding e by (simp add: c)
qed


text \<open>A group whose destination is not \<open>dest\<close>, or none of whose source names is known,
  leaves the sources of \<open>dest\<close> as they are.\<close>

lemma fromString_one_keeps_dest:
  assumes "\<forall>map0 map1. split_SkipEmptyParts CHR ''!'' one = [map0, map1] \<and>
             nameToId map0 = Some dest \<longrightarrow>
             (\<forall>s\<in>set (split_SkipEmptyParts CHR ''/'' map1). nameToId s = None)"
  shows "sources (fromString_one man one) dest = sources man dest"
proof (cases "\<exists>map0 map1 d. split_SkipEmptyParts CHR ''!'' one = [map0, map1] \<and>
                nameToId map0 = Some d")
  case False
  then have "fromString_one man one = man"
    by (auto simp: fromString_one_def split: list.splits option.splits)
  then show ?thesis by simp
next
  case True
  then obtain map0 map1 d where s: "split_SkipEmptyParts CHR ''!'' one = [map0, map1]"
    and n: "nameToId map0 = Some d" by blast
  show ?thesis
  proof (cases "d = dest")
    case True
    with assms s n have "\<forall>s\<in>set (split_SkipEmptyParts CHR ''/'' map1). nameToId s = None"
      by blast
    from fromString_one_unknown_sources [OF s n this] show ?thesis by simp
  next
    case False
    then show ?thesis
      using s n by (simp add: fromString_one_def Let_def sources_set_sources)
  qed
qed

lemma foldl_fromString_one_keeps_dest:
  assumes "\<forall>one\<in>set gs. \<forall>map0 map1. split_SkipEmptyParts CHR ''!'' one = [map0, map1] \<and>
      nameToId map0 = Some dest \<longrightarrow>
      (\<forall>s\<in>set (split_SkipEmptyParts CHR ''/'' map1). nameToId s = None)"
  shows "sources (foldl fromString_one man gs) dest = sources man dest"
proof -
  define P where "P one \<longleftrightarrow> (\<forall>map0 map1. split_SkipEmptyParts CHR ''!'' one = [map0, map1] \<and>
      nameToId map0 = Some dest \<longrightarrow>
      (\<forall>s\<in>set (split_SkipEmptyParts CHR ''/'' map1). nameToId s = None))" for one
  have step: "sources (fromString_one m one) dest = sources m dest" if "P one" for m one
    by (rule fromString_one_keeps_dest) (use that in \<open>unfold P_def\<close>)
  have "\<forall>one\<in>set gs. P one"
    using assms unfolding P_def .
  then show ?thesis
  proof (induction gs arbitrary: man)
    case Nil
    show ?case by simp
  next
    case (Cons g gs)
    then show ?case by (simp add: step)
  qed
qed


text \<open>Claim C10 as stated fails: it says that after a group with a recognized destination and
  no known source name the sources of that destination are empty in the result, for every
  input.  In \<^verbatim>\<open>FL!FR,FL!XX\<close> the group \<^verbatim>\<open>FL!XX\<close> is such a group, but the group
  \<^verbatim>\<open>FL!FR\<close> before it has stored a source list for FL, and the dropped group leaves it
  there.\<close>

theorem fromString_empty_sources_counterexample:
  "split_SkipEmptyParts CHR ''!'' ''FL!XX'' = [''FL'', ''XX''] \<and>
   nameToId ''FL'' = Some MP_SPEAKER_ID_FL \<and>
   split_SkipEmptyParts CHR ''/'' ''XX'' = [''XX''] \<and>
   nameToId ''XX'' = None \<and>
   sources (ChannelManipulation_fromString 11 ''FL!FR,FL!XX'') MP_SPEAKER_ID_FL = [MP_SPEAKER_ID_FR]"
  by (intro conjI; code_simp)


text \<open>Claim C10, amended.  No group makes \<^verbatim>\<open>fromString\<close> store an empty source list: after
  a group, the source list of a destination is the one before or is not empty.  A group whose
  destination is known but none of whose source names is known (or that has no source name
  left after splitting at \<^verbatim>\<open>/\<close>) is dropped, it leaves the manipulation as it is.  So
  the sources of a destination are empty in the result when every group of the input that
  names this destination is such a group.\<close>

theorem fromString_no_empty_entry:
  assumes "dest < cnt"
  shows "(\<forall>man one d. sources (fromString_one man one) d = sources man d \<or>
            sources (fromString_one man one) d \<noteq> []) \<and>
         (\<forall>man one map0 map1 dest'.
            split_SkipEmptyParts CHR ''!'' one = [map0, map1] \<and> nameToId map0 = Some dest' \<and>
            (\<forall>s\<in>set (split_SkipEmptyParts CHR ''/'' map1). nameToId s = None)
            \<longrightarrow> fromString_one man one = man) \<and>
         ((\<forall>one\<in>set (split CHR '','' text). \<forall>map0 map1.
              split_SkipEmptyParts CHR ''!'' one = [map0, map1] \<and> nameToId map0 = Some dest \<longrightarrow>
              (\<forall>s\<in>set (split_SkipEmptyParts CHR ''/'' map1). nameToId s = None))
            \<longrightarrow> sources (ChannelManipulation_fromString cnt text) dest = [])"
proof (intro conjI allI impI)
  fix man one d
  from fromString_one_cases [of man one]
  show "sources (fromString_one man one) d = sources man d \<or> sources (fromString_one man one) d \<noteq> []"
    by (auto simp: sources_set_sources split: if_splits)
next
  fix man one map0 map1 dest'
  assume "split_SkipEmptyParts CHR ''!'' one = [map0, map1] \<and> nameToId map0 = Some dest' \<and>
            (\<forall>s\<in>set (split_SkipEmptyParts CHR ''/'' map1). nameToId s = None)"
  then show "fromString_one man one = man" by (auto intro: fromString_one_unknown_sources)
next
  assume "\<forall>one\<in>set (split CHR '','' text). \<forall>map0 map1.
              split_SkipEmptyParts CHR ''!'' one = [map0, map1] \<and> nameToId map0 = Some dest \<longrightarrow>
              (\<forall>s\<in>set (split_SkipEmptyParts CHR ''/'' map1). nameToId s = None)"
  then have "sources (foldl fromString_one (ChannelManipulation_new cnt) (split CHR '','' text)) dest =
      sources (ChannelManipulation_new cnt) dest"
    by (rule foldl_fromString_one_keeps_dest)
  also have "\<dots> = []" using assms by (rule sources_new)
  finally show "sources (ChannelManipulation_fromString cnt text) dest = []"
    unfolding ChannelManipulation_fromString_def .
qed


theorem fromString_no_empty_entry_witness:
  "MP_SPEAKER_ID_FL < 11 \<and>
   split CHR '','' ''FL!XX/YY,FC!FL'' = [''FL!XX/YY'', ''FC!FL''] \<and>
   split_SkipEmptyParts CHR ''!'' ''FL!XX/YY'' = [''FL'', ''XX/YY''] \<and>
   nameToId ''FL'' = Some MP_SPEAKER_ID_FL \<and>
   nameToId ''XX'' = None \<and> nameToId ''YY'' = None \<and>
   fromString_one \<lparr>m_mix = [[MP_SPEAKER_ID_FR], [], [], [], [], [], [], [], [], [], []]\<rparr> ''FL!XX/YY'' =
     \<lparr>m_mix = [[MP_SPEAKER_ID_FR], [], [], [], [], [], [], [], [], [], []]\<rparr> \<and>
   sources (ChannelManipulation_fromString 11 ''FL!XX/YY,FC!FL'') MP_SPEAKER_ID_FL = []"
proof -
  have c: "MP_SPEAKER_ID_FL < 11" by (simp add: MP_SPEAKER_ID_defs)
  have g: "split CHR '','' ''FL!XX/YY,FC!FL'' = [''FL!XX/YY'', ''FC!FL'']"
    and s: "split_SkipEmptyParts CHR ''!'' ''FL!XX/YY'' = [''FL'', ''XX/YY'']"
    and s2: "split_SkipEmptyParts CHR ''!'' ''FC!FL'' = [''FC'', ''FL'']"
    and n: "nameToId ''FL'' = Some MP_SPEAKER_ID_FL"
    and n2: "nameToId ''FC'' = Some MP_SPEAKER_ID_FC"
    and x: "nameToId ''XX'' = None" and y: "nameToId ''YY'' = None"
    and u: "\<forall>s\<in>set (split_SkipEmptyParts CHR ''/'' ''XX/YY''). nameToId s = None"
    by code_simp+
  have ne: "MP_SPEAKER_ID_FC \<noteq> MP_SPEAKER_ID_FL" by (simp add: MP_SPEAKER_ID_defs)
  define P where "P one \<longleftrightarrow> (\<forall>map0 map1.
              split_SkipEmptyParts CHR ''!'' one = [map0, map1] \<and>
              nameToId map0 = Some MP_SPEAKER_ID_FL \<longrightarrow>
              (\<forall>s\<in>set (split_SkipEmptyParts CHR ''/'' map1). nameToId s = None))" for one
  have h1: "P ''FL!XX/YY''"
    unfolding P_def s using u by blast
  have h2: "P ''FC!FL''"
    unfolding P_def s2 using n2 ne by auto
  have "\<forall>one\<in>set [''FL!XX/YY'', ''FC!FL'']. P one"
    using h1 h2 by simp
  then have "\<forall>one\<in>set (split CHR '','' ''FL!XX/YY,FC!FL''). P one"
    by (simp only: g)
  then have h: "\<forall>one\<in>set (split CHR '','' ''FL!XX/YY,FC!FL''). \<forall>map0 map1.
              split_SkipEmptyParts CHR ''!'' one = [map0, map1] \<and>
              nameToId map0 = Some MP_SPEAKER_ID_FL \<longrightarrow>
              (\<forall>s\<in>set (split_SkipEmptyParts CHR ''/'' map1). nameToId s = None)"
    unfolding P_def .
  note t = fromString_no_empty_entry [OF c, of "''FL!XX/YY,FC!FL''"]
  from t have t2: "\<forall>man one map0 map1 dest'.
            split_SkipEmptyParts CHR ''!'' one = [map0, map1] \<and> nameToId map0 = Some dest' \<and>
            (\<forall>s\<in>set (split_SkipEmptyParts CHR ''/'' map1). nameToId s = None)
            \<longrightarrow> fromString_one man one = man"
    by (rule conjunct1 [OF conjunct2])
  from t have t3: "(\<forall>one\<in>set (split CHR '','' ''FL!XX/YY,FC!FL''). \<forall>map0 map1.
              split_SkipEmptyParts CHR ''!'' one = [map0, map1] \<and>
              nameToId map0 = Some MP_SPEAKER_ID_FL \<longrightarrow>
              (\<forall>s\<in>set (split_SkipEmptyParts CHR ''/'' map1). nameToId s = None))
            \<longrightarrow> sources (ChannelManipulation_fromString 11 ''FL!XX/YY,FC!FL'') MP_SPEAKER_ID_FL = []"
    by (rule conjunct2 [OF conjunct2])
  from t2 s n u
  have r1: "fromString_one \<lparr>m_mix = [[MP_SPEAKER_ID_FR], [], [], [], [], [], [], [], [], [], []]\<rparr> ''FL!XX/YY'' =
     \<lparr>m_mix = [[MP_SPEAKER_ID_FR], [], [], [], [], [], [], [], [], [], []]\<rparr>"
    by blast
  from t3 h
  have r2: "sources (ChannelManipulation_fromString 11 ''FL!XX/YY,FC!FL'') MP_SPEAKER_ID_FL = []"
    by (rule mp)
  from c g s n x y r1 r2 show ?thesis by (intro conjI)
qed


subsection \<open>Writing and reading the whole map\<close>

lemma canonical_roundtrip:
  "canonical cnt man \<Longrightarrow>
     ChannelManipulation_toString man = Inr (manipulation_text man) \<and>
     ChannelManipulation_fromString cnt (manipulation_text man) = man"
  unfolding canonical_def by (intro manipulation_roundtrip) simp_all

lemma canonical_emitted:
  assumes "canonical cnt man"
  shows "\<forall>p\<in>set (filter emitted (enumerate 0 (m_mix man))).
           fst p \<le> MP_SPEAKER_ID_SR \<and> snd p \<noteq> [] \<and> (\<forall>s\<in>set (snd p). s \<le> MP_SPEAKER_ID_SR)"
proof
  fix p assume "p \<in> set (filter emitted (enumerate 0 (m_mix man)))"
  then have e: "emitted p" and k: "fst p < length (m_mix man)" and v: "snd p = m_mix man ! fst p"
    by (auto simp: in_set_enumerate_eq)
  from assms k have "\<forall>s\<in>set (sources man (fst p)). s \<le> MP_SPEAKER_ID_SR"
    by (simp add: canonical_def)
  with e v show "fst p \<le> MP_SPEAKER_ID_SR \<and> snd p \<noteq> [] \<and> (\<forall>s\<in>set (snd p). s \<le> MP_SPEAKER_ID_SR)"
    by (simp add: emitted_def sources_def)
qed

lemma manipulation_text_chars:
  assumes "canonical cnt man" and "c \<in> set '':#''"
  shows "c \<notin> set (manipulation_text man)"
proof
  assume "c \<in> set (manipulation_text man)"
  with set_join [of "CHR '',''" "map (\<lambda>p. group_text (fst p) (snd p)) (filter emitted (enumerate 0 (m_mix man)))"]
    assms(2)
  obtain p where p: "p \<in> set (filter emitted (enumerate 0 (m_mix man)))"
    and c: "c \<in> set (group_text (fst p) (snd p))"
    by (auto simp: manipulation_text_def)
  from bspec [OF canonical_emitted [OF assms(1)] p]
  have "fst p \<le> MP_SPEAKER_ID_SR" "snd p \<noteq> []" "\<forall>s\<in>set (snd p). s \<le> MP_SPEAKER_ID_SR" by simp_all
  from group_text_chars(2) [OF this, of c] assms(2) c show False by auto
qed

lemma manipulation_text_empty:
  assumes "canonical cnt man"
  shows "manipulation_text man = [] \<longleftrightarrow> man = ChannelManipulation_new cnt"
proof
  assume "man = ChannelManipulation_new cnt"
  then show "manipulation_text man = []"
    by (simp add: manipulation_text_def ChannelManipulation_new_def filter_emitted_replicate)
next
  assume e: "manipulation_text man = []"
  let ?ps = "filter emitted (enumerate 0 (m_mix man))"
  have "?ps = []"
  proof (rule ccontr)
    assume "?ps \<noteq> []"
    then obtain p ps where ps: "?ps = p # ps" by (cases ?ps) auto
    then have "p \<in> set ?ps" by simp
    from bspec [OF canonical_emitted [OF assms] this] have "fst p \<le> MP_SPEAKER_ID_SR" "snd p \<noteq> []"
      "\<forall>s\<in>set (snd p). s \<le> MP_SPEAKER_ID_SR" by simp_all
    from group_text_chars(1) [OF this] have "group_text (fst p) (snd p) \<noteq> []" .
    with e ps show False by (auto simp: manipulation_text_def join_eq_Nil)
  qed
  then have ne: "\<forall>p\<in>set (enumerate 0 (m_mix man)). \<not> emitted p"
    by (simp add: filter_empty_conv)
  have "m_mix man = replicate cnt []"
  proof (rule nth_equalityI)
    show "length (m_mix man) = length (replicate cnt [])" using assms by (simp add: canonical_def)
  next
    fix k assume k: "k < length (m_mix man)"
    then have "(k, m_mix man ! k) \<in> set (enumerate 0 (m_mix man))" by (simp add: in_set_enumerate_eq)
    with ne have n: "\<not> emitted (k, m_mix man ! k)" by blast
    have "m_mix man ! k = []"
    proof (cases "k \<le> MP_SPEAKER_ID_SR")
      case True
      with n show ?thesis by (simp add: emitted_def)
    next
      case False
      with assms k show ?thesis by (simp add: canonical_def sources_def)
    qed
    with k assms show "m_mix man ! k = replicate cnt [] ! k" by (simp add: canonical_def)
  qed
  then show "man = ChannelManipulation_new cnt" by (simp add: ChannelManipulation_new_def)
qed

lemma canonical_new: "canonical cnt (ChannelManipulation_new cnt)"
  by (simp add: canonical_def ChannelManipulation_new_def sources_def)

lemma canonical_set_sources:
  assumes "canonical cnt man" and "dest \<le> MP_SPEAKER_ID_SR" and "\<forall>s\<in>set srcs. s \<le> MP_SPEAKER_ID_SR"
  shows "canonical cnt (set_sources man dest srcs)"
proof -
  have l: "length (m_mix man) = cnt" using assms(1) by (simp add: canonical_def)
  have "sources (set_sources man dest srcs) d = [] " if "d < cnt" "MP_SPEAKER_ID_SR < d" for d
    using that assms(1,2) by (simp add: sources_set_sources canonical_def)
  moreover have "\<forall>s\<in>set (sources (set_sources man dest srcs) d). s \<le> MP_SPEAKER_ID_SR"
    if "d < cnt" for d
    using that assms(1,3) by (simp add: sources_set_sources canonical_def)
  ultimately show ?thesis using l by (simp add: canonical_def set_sources_def)
qed

lemma split_three:
  assumes "CHR '':'' \<notin> set a" and "CHR '':'' \<notin> set b" and "CHR '':'' \<notin> set t"
  shows "split CHR '':'' (a @ '':'' @ b @ '':'' @ t) = [a, b, t]"
proof -
  have "split CHR '':'' (b @ CHR '':'' # t) = b # split CHR '':'' t"
    using assms(2) by (rule split_append_sep)
  moreover have "split CHR '':'' (a @ CHR '':'' # (b @ CHR '':'' # t)) = a # split CHR '':'' (b @ CHR '':'' # t)"
    using assms(1) by (rule split_append_sep)
  ultimately show ?thesis using assms(3) by (simp add: split_no_sep)
qed

lemma fromString_record_text:
  assumes "name_ok (layoutName (fst e))" and "name_ok (layoutName (fst (snd e)))"
    and "canonical cnt (snd (snd e))"
    and "layoutFrom (layoutName (fst e)) = fst e"
    and "layoutFrom (layoutName (fst (snd e))) = fst (snd e)"
  shows "fromString_record cnt layoutFrom lmap (record_text layoutName e) = store_entry lmap e"
proof -
  let ?a = "layoutName (fst e)" and ?b = "layoutName (fst (snd e))"
  let ?t = "manipulation_text (snd (snd e))"
  have t: "CHR '':'' \<notin> set ?t" using manipulation_text_chars [OF assms(3), of "CHR '':''"] by simp
  have s: "split CHR '':'' (record_text layoutName e) = [?a, ?b, ?t]"
    unfolding record_text_def using assms(1,2) t by (intro split_three) (simp_all add: name_ok_def)
  show ?thesis
  proof (cases "?t = []")
    case True
    then show ?thesis
      using assms(1,2) by (simp add: fromString_record_def split_SkipEmptyParts_def s store_entry_def name_ok_def)
  next
    case False
    then show ?thesis
      using assms(1,2,4,5) canonical_roundtrip [OF assms(3)]
      by (simp add: fromString_record_def split_SkipEmptyParts_def s store_entry_def name_ok_def)
  qed
qed

lemma record_text_chars:
  assumes "name_ok (layoutName (fst e))" and "name_ok (layoutName (fst (snd e)))"
    and "canonical cnt (snd (snd e))"
  shows "record_text layoutName e \<noteq> [] \<and> CHR ''#'' \<notin> set (record_text layoutName e)"
  using assms manipulation_text_chars [OF assms(3), of "CHR ''#''"]
  by (simp add: record_text_def name_ok_def)

lemma entries_Nil: "entries \<lparr>m_map = []\<rparr> = []"
  by (simp add: entries_def)

lemma entries_Cons:
  "entries \<lparr>m_map = (src, inner) # rest\<rparr> =
     map (Pair src) inner @ entries \<lparr>m_map = rest\<rparr>"
proof -
  have "(\<lambda>(dst, man). (src, dst, man)) = Pair src" by auto
  then show ?thesis by (simp add: entries_def)
qed

lemma dit_loop_closed:
  "\<forall>p\<in>set inner. canonical cnt (snd p) \<Longrightarrow>
   dit_loop (layoutName src) layoutName inner acc =
     Inr (acc @ map (\<lambda>p. record_text layoutName (src, p)) inner)"
proof (induction inner arbitrary: acc)
  case Nil
  then show ?case by simp
next
  case (Cons p inner)
  obtain dst man where p: "p = (dst, man)" by (cases p)
  from Cons.prems p have "canonical cnt man" by simp
  then have t: "ChannelManipulation_toString man = Inr (manipulation_text man)"
    by (simp add: canonical_roundtrip)
  from Cons.prems have "\<forall>p\<in>set inner. canonical cnt (snd p)" by simp
  from Cons.IH [OF this] show ?case by (simp add: p t record_text_def)
qed

lemma sit_loop_closed:
  "\<forall>e\<in>set (entries \<lparr>m_map = m\<rparr>). canonical cnt (snd (snd e)) \<Longrightarrow>
   sit_loop layoutName m acc = Inr (acc @ map (record_text layoutName) (entries \<lparr>m_map = m\<rparr>))"
proof (induction m arbitrary: acc)
  case Nil
  then show ?case by (simp add: entries_Nil)
next
  case (Cons x m)
  obtain src inner where x: "x = (src, inner)" by (cases x)
  from Cons.prems have rest: "\<forall>e\<in>set (entries \<lparr>m_map = m\<rparr>). canonical cnt (snd (snd e))"
    by (simp add: x entries_Cons)
  have inner: "\<forall>p\<in>set inner. canonical cnt (snd p)"
  proof
    fix p assume "p \<in> set inner"
    then have "(src, p) \<in> set (entries \<lparr>m_map = x # m\<rparr>)"
      by (simp add: x entries_Cons)
    with Cons.prems show "canonical cnt (snd p)" by fastforce
  qed
  show ?case
    by (simp add: x dit_loop_closed [OF inner] Cons.IH [OF rest] entries_Cons o_def)
qed

lemma foldl_fromString_record:
  "\<forall>e\<in>set es. name_ok (layoutName (fst e)) \<and> name_ok (layoutName (fst (snd e))) \<and>
      canonical cnt (snd (snd e)) \<and> layoutFrom (layoutName (fst e)) = fst e \<and>
      layoutFrom (layoutName (fst (snd e))) = fst (snd e) \<Longrightarrow>
   foldl (fromString_record cnt layoutFrom) lmap (map (record_text layoutName) es) =
     foldl store_entry lmap es"
  by (induction es arbitrary: lmap) (simp_all add: fromString_record_text)

lemma find_entry_store_entry:
  "find_entry (store_entry lmap e) s d =
     (if (s, d) = (fst e, fst (snd e)) \<and> manipulation_text (snd (snd e)) \<noteq> []
      then Some (snd (snd e)) else find_entry lmap s d)"
  by (simp add: store_entry_def find_entry_set_entry)

lemma find_entry_foldl_store:
  "distinct (map (\<lambda>e. (fst e, fst (snd e))) es) \<Longrightarrow>
   find_entry (foldl store_entry lmap es) s d =
     (case map_of (map (\<lambda>e. ((fst e, fst (snd e)), snd (snd e))) es) (s, d) of
        None \<Rightarrow> find_entry lmap s d
      | Some man \<Rightarrow> if manipulation_text man = [] then find_entry lmap s d else Some man)"
proof (induction es arbitrary: lmap)
  case Nil
  then show ?case by simp
next
  case (Cons e es)
  from Cons.prems have d: "distinct (map (\<lambda>e. (fst e, fst (snd e))) es)"
    and n: "(fst e, fst (snd e)) \<notin> (\<lambda>e. (fst e, fst (snd e))) ` set es" by simp_all
  have none: "map_of (map (\<lambda>e. ((fst e, fst (snd e)), snd (snd e))) es) (fst e, fst (snd e)) = None"
    using n by (simp add: map_of_eq_None_iff image_image)
  show ?case
  proof (cases "(s, d) = (fst e, fst (snd e))")
    case True
    then show ?thesis
      using Cons.IH [OF d, of "store_entry lmap e"] none
      by (simp add: find_entry_store_entry)
  next
    case False
    then show ?thesis
      using Cons.IH [OF d, of "store_entry lmap e"]
      by (auto simp: find_entry_store_entry split: option.splits)
  qed
qed

lemma entries_keys:
  assumes "distinct (map fst m)" and "\<forall>x\<in>set m. distinct (map fst (snd x))"
  shows "distinct (map (\<lambda>e. (fst e, fst (snd e))) (entries \<lparr>m_map = m\<rparr>)) \<and>
         (\<forall>e\<in>set (entries \<lparr>m_map = m\<rparr>). fst e \<in> fst ` set m) \<and>
         (\<forall>s d. map_of (map (\<lambda>e. ((fst e, fst (snd e)), snd (snd e))) (entries \<lparr>m_map = m\<rparr>)) (s, d) =
            find_entry \<lparr>m_map = m\<rparr> s d)"
  using assms
proof (induction m)
  case Nil
  then show ?case by (simp add: entries_Nil find_entry_def)
next
  case (Cons x m)
  obtain src inner where x: "x = (src, inner)" by (cases x)
  from Cons.prems have dm: "distinct (map fst m)" and ns: "src \<notin> fst ` set m"
    and di: "distinct (map fst inner)" and dr: "\<forall>x\<in>set m. distinct (map fst (snd x))"
    by (simp_all add: x)
  note IH = Cons.IH [OF dm dr]
  let ?here = "map (Pair src) inner"
  have keys_here: "map (\<lambda>e. (fst e, fst (snd e))) ?here = map (\<lambda>k. (src, k)) (map fst inner)"
    by (simp add: o_def)
  have d1: "distinct (map (\<lambda>e. (fst e, fst (snd e))) ?here)"
    unfolding keys_here using di by (simp add: distinct_map inj_on_def)
  have disj: "set (map (\<lambda>e. (fst e, fst (snd e))) ?here) \<inter>
              set (map (\<lambda>e. (fst e, fst (snd e))) (entries \<lparr>m_map = m\<rparr>)) = {}"
    using IH ns by (auto simp: image_iff)
  have part1: "distinct (map (\<lambda>e. (fst e, fst (snd e))) (entries \<lparr>m_map = x # m\<rparr>))"
    using d1 IH disj by (simp add: x entries_Cons)
  have part2: "\<forall>e\<in>set (entries \<lparr>m_map = x # m\<rparr>). fst e \<in> fst ` set (x # m)"
    using IH by (auto simp: x entries_Cons)
  have here: "map_of (map ((\<lambda>e. ((fst e, fst (snd e)), snd (snd e))) \<circ> Pair src) inner) (s, d) =
        (if s = src then map_of inner d else None)" for s d
    by (induction inner) auto
  have part3: "map_of (map (\<lambda>e. ((fst e, fst (snd e)), snd (snd e))) (entries \<lparr>m_map = x # m\<rparr>)) (s, d) =
            find_entry \<lparr>m_map = x # m\<rparr> s d" for s d
  proof (cases "s = src")
    case True
    have "map_of m src = None" using ns by (simp add: map_of_eq_None_iff)
    then have "find_entry \<lparr>m_map = m\<rparr> src d = None"
      by (simp add: find_entry_def)
    with IH have "map_of (map (\<lambda>e. ((fst e, fst (snd e)), snd (snd e))) (entries \<lparr>m_map = m\<rparr>)) (src, d) = None"
      by simp
    then show ?thesis
      using True by (simp add: x entries_Cons map_add_def here find_entry_def split: option.splits)
  next
    case False
    then show ?thesis
      using IH by (simp add: x entries_Cons map_add_def here find_entry_def)
  qed
  from part1 part2 part3 show ?case by blast
qed

lemma layout_map_roundtrip_aux:
  assumes "distinct (map fst (m_map M))" and "\<forall>x\<in>set (m_map M). distinct (map fst (snd x))"
    and ok: "\<forall>e\<in>set (entries M).
           name_ok (layoutName (fst e)) \<and> name_ok (layoutName (fst (snd e))) \<and>
           canonical cnt (snd (snd e)) \<and>
           layoutFrom (layoutName (fst e)) = fst e \<and>
           layoutFrom (layoutName (fst (snd e))) = fst (snd e)"
  shows "\<exists>text. ChannelLayoutMap_toString layoutName M = Inr text \<and>
           (\<forall>s d. find_entry (ChannelLayoutMap_fromString cnt layoutFrom text) s d =
              (case find_entry M s d of
                 None \<Rightarrow> None
               | Some man \<Rightarrow> if man = ChannelManipulation_new cnt then None else Some man))"
proof -
  obtain m where M: "M = \<lparr>m_map = m\<rparr>" by (cases M)
  let ?es = "entries M"
  let ?recs = "map (record_text layoutName) ?es"
  have can: "\<forall>e\<in>set (entries \<lparr>m_map = m\<rparr>). canonical cnt (snd (snd e))"
    using ok unfolding M by blast
  have ts: "ChannelLayoutMap_toString layoutName M = Inr (join CHR ''#'' ?recs)"
    using sit_loop_closed [OF can, of layoutName "[]"]
    by (simp add: ChannelLayoutMap_toString_def M)
  have "\<forall>r\<in>set ?recs. CHR ''#'' \<notin> set r \<and> r \<noteq> []"
    using ok record_text_chars [of layoutName _ cnt] by auto
  then have sp: "split_SkipEmptyParts CHR ''#'' (join CHR ''#'' ?recs) = ?recs"
    by (rule split_Skip_join)
  have fs: "ChannelLayoutMap_fromString cnt layoutFrom (join CHR ''#'' ?recs) =
      foldl store_entry ChannelLayoutMap_new ?es"
    unfolding ChannelLayoutMap_fromString_def sp
    using ok by (intro foldl_fromString_record) blast
  note K = entries_keys [OF assms(1,2) [unfolded M ChannelLayoutMap.simps], folded M]
  have fe: "find_entry (foldl store_entry ChannelLayoutMap_new ?es) s d =
      (case find_entry M s d of
         None \<Rightarrow> None
       | Some man \<Rightarrow> if man = ChannelManipulation_new cnt then None else Some man)" for s d
  proof (cases "find_entry M s d")
    case None
    with K have "map_of (map (\<lambda>e. ((fst e, fst (snd e)), snd (snd e))) ?es) (s, d) = None"
      by simp
    with None show ?thesis
      using K find_entry_foldl_store [of ?es ChannelLayoutMap_new s d]
      by (simp add: find_entry_def ChannelLayoutMap_new_def)
  next
    case (Some man)
    with K have mo: "map_of (map (\<lambda>e. ((fst e, fst (snd e)), snd (snd e))) ?es) (s, d) = Some man"
      by simp
    then have "((s, d), man) \<in> set (map (\<lambda>e. ((fst e, fst (snd e)), snd (snd e))) ?es)"
      by (rule map_of_SomeD)
    then obtain e where "e \<in> set ?es" "snd (snd e) = man" by auto
    with ok have "canonical cnt man" by blast
    then have "manipulation_text man = [] \<longleftrightarrow> man = ChannelManipulation_new cnt"
      by (rule manipulation_text_empty)
    with Some mo show ?thesis
      using K find_entry_foldl_store [of ?es ChannelLayoutMap_new s d]
      by (simp add: find_entry_def ChannelLayoutMap_new_def)
  qed
  from ts fs fe show ?thesis by simp
qed


text \<open>Claim C5 as stated fails: an entry whose manipulation is empty (what
  \<^verbatim>\<open>operator()(src, dst)\<close> creates) is written as a record with an empty third
  field, \<^verbatim>\<open>fromString\<close> splits it into two parts and skips it, and the entry is not
  in the map read back.\<close>

theorem layout_map_roundtrip_counterexample:
  "ChannelLayoutMap_toString (\<lambda>l. if l = 4 then ''mono'' else ''stereo'')
     (set_entry ChannelLayoutMap_new 4 3 (ChannelManipulation_new 11)) = Inr ''mono:stereo:'' \<and>
   find_entry (set_entry ChannelLayoutMap_new 4 3 (ChannelManipulation_new 11)) 4 3 =
     Some (ChannelManipulation_new 11) \<and>
   find_entry (ChannelLayoutMap_fromString 11 (\<lambda>n. if n = ''mono'' then 4 else 3) ''mono:stereo:'') 4 3 =
     None"
  by (intro conjI; code_simp)


text \<open>Claim C5, amended.  Let the keys of \<open>M\<close> be distinct (at both levels), let every layout
  name of an entry be non-empty, without \<^verbatim>\<open>:\<close> and \<^verbatim>\<open>#\<close>, and be mapped back
  to its layout by \<^verbatim>\<open>ChannelLayoutInfo::from\<close>, and let every manipulation be as in
  claim C4.  Then \<^verbatim>\<open>toString\<close> gives a text, and the map that \<^verbatim>\<open>fromString\<close>
  reads from it has exactly the entries of \<open>M\<close> whose manipulation is not empty, with the
  same manipulations; so looking a pair up (which creates an empty manipulation where there
  is no entry) gives the same manipulation in both maps.\<close>

theorem layout_map_roundtrip:
  assumes "distinct (map fst (m_map M))" and "\<forall>x\<in>set (m_map M). distinct (map fst (snd x))"
    and "\<forall>e\<in>set (entries M).
           name_ok (layoutName (fst e)) \<and> name_ok (layoutName (fst (snd e))) \<and>
           canonical cnt (snd (snd e)) \<and>
           layoutFrom (layoutName (fst e)) = fst e \<and>
           layoutFrom (layoutName (fst (snd e))) = fst (snd e)"
  shows "\<exists>text. ChannelLayoutMap_toString layoutName M = Inr text \<and>
           (\<forall>s d. find_entry (ChannelLayoutMap_fromString cnt layoutFrom text) s d =
              (case find_entry M s d of
                 None \<Rightarrow> None
               | Some man \<Rightarrow> if man = ChannelManipulation_new cnt then None else Some man)) \<and>
           (\<forall>s d. entry cnt (ChannelLayoutMap_fromString cnt layoutFrom text) s d = entry cnt M s d)"
proof -
  from layout_map_roundtrip_aux [OF assms] obtain str where
    t: "ChannelLayoutMap_toString layoutName M = Inr str"
    and f: "\<forall>s d. find_entry (ChannelLayoutMap_fromString cnt layoutFrom str) s d =
              (case find_entry M s d of
                 None \<Rightarrow> None
               | Some man \<Rightarrow> if man = ChannelManipulation_new cnt then None else Some man)"
    by blast
  have "entry cnt (ChannelLayoutMap_fromString cnt layoutFrom str) s d = entry cnt M s d" for s d
    by (simp add: entry_find_entry f split: option.splits)
  with t f show ?thesis by blast
qed


theorem layout_map_roundtrip_witness:
  "ChannelLayoutMap_toString (\<lambda>l. if l = 4 then ''mono'' else ''stereo'')
     \<lparr>m_map =
        [(3, [(4, set_sources (ChannelManipulation_new 11) MP_SPEAKER_ID_FC
                    [MP_SPEAKER_ID_FL, MP_SPEAKER_ID_FR])]),
         (4, [(3, ChannelManipulation_new 11)])]\<rparr> = Inr ''stereo:mono:FC!FL/FR#mono:stereo:'' \<and>
   find_entry (ChannelLayoutMap_fromString 11 (\<lambda>n. if n = ''mono'' then 4 else 3)
                 ''stereo:mono:FC!FL/FR#mono:stereo:'') 3 4 =
     Some (set_sources (ChannelManipulation_new 11) MP_SPEAKER_ID_FC [MP_SPEAKER_ID_FL, MP_SPEAKER_ID_FR]) \<and>
   find_entry (ChannelLayoutMap_fromString 11 (\<lambda>n. if n = ''mono'' then 4 else 3)
                 ''stereo:mono:FC!FL/FR#mono:stereo:'') 4 3 = None \<and>
   entry 11 (ChannelLayoutMap_fromString 11 (\<lambda>n. if n = ''mono'' then 4 else 3)
                 ''stereo:mono:FC!FL/FR#mono:stereo:'') 4 3 = ChannelManipulation_new 11"
  (is "ChannelLayoutMap_toString ?name ?M = Inr ?text \<and> _")
proof -
  let ?from = "\<lambda>n. if n = ''mono'' then 4 else (3::int)"
  let ?man = "set_sources (ChannelManipulation_new 11) MP_SPEAKER_ID_FC [MP_SPEAKER_ID_FL, MP_SPEAKER_ID_FR]"
  have t: "ChannelLayoutMap_toString ?name ?M = Inr ?text" by code_simp
  have e: "entries ?M = [(3, 4, ?man), (4, 3, ChannelManipulation_new 11)]"
    by (simp add: entries_def)
  have c: "canonical 11 ?man"
    by (intro canonical_set_sources canonical_new) (simp_all add: MP_SPEAKER_ID_defs)
  have ne: "?man \<noteq> ChannelManipulation_new 11" by code_simp
  have ok: "\<forall>e\<in>set (entries ?M).
           name_ok (?name (fst e)) \<and> name_ok (?name (fst (snd e))) \<and>
           canonical 11 (snd (snd e)) \<and>
           ?from (?name (fst e)) = fst e \<and>
           ?from (?name (fst (snd e))) = fst (snd e)"
    unfolding e using c by (simp add: name_ok_def canonical_new)
  have f: "find_entry ?M 3 4 = Some ?man" "find_entry ?M 4 3 = Some (ChannelManipulation_new 11)"
    by (simp_all add: find_entry_def)
  from layout_map_roundtrip [of ?M ?name 11 ?from, OF _ _ ok] t
  have F: "\<And>s d. find_entry (ChannelLayoutMap_fromString 11 ?from ?text) s d =
              (case find_entry ?M s d of
                 None \<Rightarrow> None
               | Some man \<Rightarrow> if man = ChannelManipulation_new 11 then None else Some man)"
    and E: "\<And>s d. entry 11 (ChannelLayoutMap_fromString 11 ?from ?text) s d = entry 11 ?M s d"
    by simp_all
  have "find_entry (ChannelLayoutMap_fromString 11 ?from ?text) 3 4 = Some ?man"
    unfolding F f using ne by simp
  moreover have "find_entry (ChannelLayoutMap_fromString 11 ?from ?text) 4 3 = None"
    unfolding F f by simp
  moreover have "entry 11 (ChannelLayoutMap_fromString 11 ?from ?text) 4 3 = ChannelManipulation_new 11"
    unfolding E by (simp add: entry_find_entry f)
  ultimately show ?thesis using t by blast
qed


end
